theory Spec2Isabelle
  imports Main
begin

section \<open>JavaScript values the code builds\<close>

text \<open>
  Strings are lists of 8-bit characters. A call that may throw returns an \<open>outcome\<close>
  next to the state it leaves behind.

  A JavaScript number is an IEEE double. The numbers the server computes with are whole
  (version counters, and what \<^verbatim>\<open>parseInt\<close> returns), and a whole double is modelled
  by the integer it denotes. \<open>round_to_53_bits\<close> rounds a magnitude to the nearest
  double, ties to the even significand: a whole number of at most 53 bits is kept, a
  longer one is rounded to 53 significant bits. \<open>to_double\<close> is this conversion on
  signed whole numbers that stay finite, as SQLite's 64-bit integers and doubles do;
  \<open>to_number\<close> is the conversion of a sign and a magnitude of any size, an infinity
  when the rounded magnitude reaches \<open>2 ^ 1024\<close>. \<open>number\<close> adds the infinities and
  \<^verbatim>\<open>NaN\<close> to the whole doubles.
\<close>

datatype 'a outcome = Returned 'a | Threw

datatype number = Whole int | PlusInfinity | MinusInfinity | NaN

fun bit_length :: "nat \<Rightarrow> nat" where
  "bit_length n = (if n = 0 then 0 else Suc (bit_length (n div 2)))"

declare bit_length.simps [simp del]

definition round_to_53_bits :: "nat \<Rightarrow> nat" where
  "round_to_53_bits n =
     (let e = bit_length n - 53;
          q = n div 2 ^ e;
          r = n mod 2 ^ e
      in if e = 0 then n
         else if 2 ^ (e - 1) < r \<or> (r = 2 ^ (e - 1) \<and> odd q) then (q + 1) * 2 ^ e
         else q * 2 ^ e)"

definition to_double :: "int \<Rightarrow> int" where
  "to_double v =
     (if v < 0 then - int (round_to_53_bits (nat (- v))) else int (round_to_53_bits (nat v)))"

definition to_number :: "bool \<Rightarrow> nat \<Rightarrow> number" where
  \<comment> \<open>the Number value of a sign and a magnitude\<close>
  "to_number negative n =
     (let m = round_to_53_bits n in
      if 2 ^ 1024 \<le> m then (if negative then MinusInfinity else PlusInfinity)
      else Whole (if negative then - int m else int m))"

definition LF :: char where
  "LF = CHR 0x0A"

definition digit_char :: "nat \<Rightarrow> char" where
  "digit_char d = char_of (48 + d)"

fun digits_of_nat :: "nat \<Rightarrow> string" where
  "digits_of_nat n =
     (if n < 10 then [digit_char n]
      else digits_of_nat (n div 10) @ [digit_char (n mod 10)])"

declare digits_of_nat.simps [simp del]

text \<open>
  \<^verbatim>\<open>String(x)\<close>, also what \<^verbatim>\<open>JSON.stringify\<close> prints for a number, on a whole
  double \<open>x\<close>. JavaScript prints the shortest decimal \<open>s \<times> 10 ^ (n - k)\<close>, \<open>s\<close> of
  \<open>k\<close> digits, that reads back as \<open>x\<close> (the nearest to \<open>x\<close> if there are several, the
  even one at a tie): the digits of \<open>s\<close> followed by \<open>n - k\<close> zeros when \<open>n \<le> 21\<close>, and
  the exponent form \<^verbatim>\<open>d.ddde+E\<close> otherwise. Up to \<open>2 ^ 53\<close> every whole number is a
  double and no shorter decimal reads back as it, so all its digits are printed.
  \<open>shortest_decimal x N k\<close> searches \<open>k = 1, 2, \<dots>\<close> for a number \<open>x\<close> of \<open>N\<close>
  digits and returns \<open>s\<close>, \<open>k\<close> and \<open>n\<close>; 17 digits identify any double.
\<close>

definition reads_back :: "nat \<Rightarrow> nat \<Rightarrow> bool" where
  "reads_back y x = (round_to_53_bits y = x)"

function shortest_decimal :: "nat \<Rightarrow> nat \<Rightarrow> nat \<Rightarrow> nat \<times> nat \<times> nat" where
  "shortest_decimal x N k =
     (let p = 10 ^ (N - k);
          lo = x div p;
          hi = lo + 1;
          below = x - lo * p;
          above = hi * p - x;
          pick = (\<lambda>s. if s = 10 ^ k then (1, 1, N + 1) else (s, k, N))
      in if reads_back (lo * p) x \<and> reads_back (hi * p) x
         then (if below < above \<or> (below = above \<and> even lo) then pick lo else pick hi)
         else if reads_back (lo * p) x then pick lo
         else if reads_back (hi * p) x then pick hi
         else if 17 \<le> k \<or> N \<le> k then pick lo
         else shortest_decimal x N (k + 1))"
  by pat_completeness auto

termination
  by (relation "measure (\<lambda>(x, N, k). 17 - k)") auto

declare shortest_decimal.simps [simp del]

definition magnitude_toString :: "nat \<Rightarrow> string" where
  "magnitude_toString x =
     (if x \<le> 2 ^ 53 then digits_of_nat x
      else
        (case shortest_decimal x (length (digits_of_nat x)) 1 of
           (s, k, n) \<Rightarrow>
             if n \<le> 21 then digits_of_nat s @ replicate (n - k) CHR ''0''
             else if k = 1 then digits_of_nat s @ ''e+'' @ digits_of_nat (n - 1)
             else hd (digits_of_nat s) # ''.'' @ tl (digits_of_nat s)
                    @ ''e+'' @ digits_of_nat (n - 1)))"

definition Number_toString :: "int \<Rightarrow> string" where
  "Number_toString v =
     (if v < 0 then CHR ''-'' # magnitude_toString (nat (- v)) else magnitude_toString (nat v))"

text \<open>
  \<^verbatim>\<open>JSON.stringify\<close> on the objects the server broadcasts: flat objects whose
  values are strings and whole numbers, the properties in the order of the object
  literal.
\<close>

datatype jvalue = JNumber int | JString string

definition hex_char :: "nat \<Rightarrow> char" where
  "hex_char d = ''0123456789abcdef'' ! d"

definition quote_char :: "char \<Rightarrow> string" where
  "quote_char c =
     (let n = (of_char c :: nat) in
      if n = 8 then [CHR 0x5C, CHR ''b'']
      else if n = 9 then [CHR 0x5C, CHR ''t'']
      else if n = 10 then [CHR 0x5C, CHR ''n'']
      else if n = 12 then [CHR 0x5C, CHR ''f'']
      else if n = 13 then [CHR 0x5C, CHR ''r'']
      else if n = 34 then [CHR 0x5C, CHR 0x22]
      else if n = 92 then [CHR 0x5C, CHR 0x5C]
      else if n < 32 then [CHR 0x5C, CHR ''u'', CHR ''0'', CHR ''0'',
                           hex_char (n div 16), hex_char (n mod 16)]
      else [c])"

definition quote_string :: "string \<Rightarrow> string" where
  "quote_string s = CHR 0x22 # concat (map quote_char s) @ [CHR 0x22]"

fun stringify_value :: "jvalue \<Rightarrow> string" where
  "stringify_value (JNumber v) = Number_toString v"
| "stringify_value (JString s) = quote_string s"

fun join_commas :: "string list \<Rightarrow> string" where
  "join_commas [] = []"
| "join_commas [x] = x"
| "join_commas (x # y # ys) = x @ '','' @ join_commas (y # ys)"

definition JSON_stringify :: "(string \<times> jvalue) list \<Rightarrow> string" where
  "JSON_stringify obj =
     ''{'' @ join_commas (map (\<lambda>(k, v). quote_string k @ '':'' @ stringify_value v) obj) @ ''}''"

section \<open>The data cache (cache/index.js, class DataCache)\<close>

text \<open>
  Times are the milliseconds of \<^verbatim>\<open>Date.now()\<close>, natural numbers. The cache is a
  JavaScript \<^verbatim>\<open>Map\<close> from keys to entries, a partial function here; an absent
  result (\<^verbatim>\<open>null\<close>) is \<open>None\<close>.

  The TTL table \<^verbatim>\<open>this.TTL\<close> is an object literal, not a \<^verbatim>\<open>Map\<close>: the lookup
  \<^verbatim>\<open>this.TTL[key]\<close> finds the three own properties and, for any other key, walks the
  prototype chain, so the names every object inherits from \<^verbatim>\<open>Object.prototype\<close> yield a
  function (or, for \<^verbatim>\<open>__proto__\<close>, an object): a truthy value that is not a number.
  \<^verbatim>\<open>Date.now() + ttl\<close> is then a string concatenation, and
  \<^verbatim>\<open>Date.now() > entry.expiresAt\<close> compares a number with a string that does not read
  as a number, which is false.
\<close>

datatype ttl_value = Millis nat | NonNumeric

datatype expiry = Stamp nat | Garbled

record 'p entry =
  data :: 'p
  version :: int
  expiresAt :: expiry
  cachedAt :: nat

record 'p DataCache =
  cache :: "string \<rightharpoonup> 'p entry"
  versions :: "string \<rightharpoonup> int"

definition new_DataCache :: "'p DataCache" where
  "new_DataCache = \<lparr>cache = Map.empty, versions = Map.empty\<rparr>"

definition TTL :: "string \<rightharpoonup> nat" where
  "TTL = [''raffles'' \<mapsto> 30000, ''rules'' \<mapsto> 300000, ''sponsors'' \<mapsto> 300000]"

definition Object_prototype_keys :: "string list" where
  "Object_prototype_keys =
     [''constructor'', ''__defineGetter__'', ''__defineSetter__'', ''hasOwnProperty'',
      ''__lookupGetter__'', ''__lookupSetter__'', ''isPrototypeOf'',
      ''propertyIsEnumerable'', ''toString'', ''valueOf'', ''__proto__'',
      ''toLocaleString'']"

definition TTL_lookup :: "string \<Rightarrow> ttl_value option" where
  \<comment> \<open>\<^verbatim>\<open>this.TTL[key]\<close>; \<open>None\<close> is \<^verbatim>\<open>undefined\<close>.\<close>
  "TTL_lookup key =
     (case TTL key of
        Some n \<Rightarrow> Some (Millis n)
      | None \<Rightarrow> if key \<in> set Object_prototype_keys then Some NonNumeric else None)"

definition ttl_for :: "string \<Rightarrow> ttl_value" where
  \<comment> \<open>\<^verbatim>\<open>this.TTL[key] || 5000\<close>: zero and \<^verbatim>\<open>undefined\<close> are falsy.\<close>
  "ttl_for key =
     (case TTL_lookup key of
        Some (Millis n) \<Rightarrow> if n = 0 then Millis 5000 else Millis n
      | Some NonNumeric \<Rightarrow> NonNumeric
      | None \<Rightarrow> Millis 5000)"

definition plus_ttl :: "nat \<Rightarrow> ttl_value \<Rightarrow> expiry" where
  \<comment> \<open>\<^verbatim>\<open>Date.now() + ttl\<close>\<close>
  "plus_ttl now t = (case t of Millis n \<Rightarrow> Stamp (now + n) | NonNumeric \<Rightarrow> Garbled)"

definition past :: "nat \<Rightarrow> expiry \<Rightarrow> bool" where
  \<comment> \<open>\<^verbatim>\<open>Date.now() > entry.expiresAt\<close>\<close>
  "past now e = (case e of Stamp t \<Rightarrow> t < now | Garbled \<Rightarrow> False)"

definition cache_get :: "string \<Rightarrow> nat \<Rightarrow> 'p DataCache \<Rightarrow> 'p option \<times> 'p DataCache" where
  \<comment> \<open>\<^verbatim>\<open>get(key)\<close> read at time \<open>now\<close>\<close>
  "cache_get key now c =
     (case cache c key of
        None \<Rightarrow> (None, c)
      | Some e \<Rightarrow>
          if past now (expiresAt e)
          then (None, c\<lparr>cache := (cache c)(key := None)\<rparr>)
          else (Some (data e), c))"

definition cache_set :: "string \<Rightarrow> 'p \<Rightarrow> int \<Rightarrow> nat \<Rightarrow> nat \<Rightarrow> 'p DataCache \<Rightarrow> 'p DataCache" where
  \<comment> \<open>\<^verbatim>\<open>set(key, data, version)\<close>; \<open>now\<close> and \<open>now'\<close> are its two readings of the clock.\<close>
  "cache_set key d v now now' c =
     c\<lparr>cache := (cache c)(key \<mapsto>
          \<lparr>data = d, version = v, expiresAt = plus_ttl now (ttl_for key), cachedAt = now'\<rparr>),
       versions := (versions c)(key \<mapsto> v)\<rparr>"

definition invalidate :: "string \<Rightarrow> 'p DataCache \<Rightarrow> 'p DataCache" where
  "invalidate key c =
     c\<lparr>cache := (cache c)(key := None), versions := (versions c)(key := None)\<rparr>"

definition invalidateAll :: "'p DataCache \<Rightarrow> 'p DataCache" where
  "invalidateAll c = c\<lparr>cache := Map.empty, versions := Map.empty\<rparr>"

definition cleanup :: "nat \<Rightarrow> 'p DataCache \<Rightarrow> 'p DataCache" where
  "cleanup now c =
     c\<lparr>cache := (\<lambda>k. case cache c k of
                         None \<Rightarrow> None
                       | Some e \<Rightarrow> if past now (expiresAt e) then None else Some e)\<rparr>"

text \<open>The operations a caller can interleave on the cache, and a run of them.\<close>

datatype 'p cache_op =
    Get string nat
  | SetEntry string 'p int nat nat
  | Invalidate string
  | Cleanup nat

fun touches_set :: "string \<Rightarrow> 'p cache_op \<Rightarrow> bool" where
  "touches_set k (SetEntry k' d v t t') = (k = k')"
| "touches_set k _ = False"

fun cache_step :: "'p cache_op \<Rightarrow> 'p DataCache \<Rightarrow> 'p DataCache" where
  "cache_step (Get k t) c = snd (cache_get k t c)"
| "cache_step (SetEntry k d v t t') c = cache_set k d v t t' c"
| "cache_step (Invalidate k) c = invalidate k c"
| "cache_step (Cleanup t) c = cleanup t c"

fun cache_run :: "'p cache_op list \<Rightarrow> 'p DataCache \<Rightarrow> 'p DataCache" where
  "cache_run [] c = c"
| "cache_run (x # xs) c = cache_run xs (cache_step x c)"

fun no_set_on :: "string \<Rightarrow> 'p cache_op list \<Rightarrow> bool" where
  "no_set_on k [] = True"
| "no_set_on k (x # xs) = (\<not> touches_set k x \<and> no_set_on k xs)"

section \<open>The push hub (sse/index.js, class SSEManager)\<close>

text \<open>
  A connection is an Express response object, referred to by its address; \<open>channels\<close>
  is the heap of these objects. \<open>head_sent\<close> holds the status and headers once
  \<^verbatim>\<open>writeHead\<close> has sent them; a second \<^verbatim>\<open>writeHead\<close> on the same response
  throws (headers already sent). The field \<open>write_calls\<close> records every call of
  \<^verbatim>\<open>write\<close> on the object, \<open>written\<close> the chunks it accepted, and
  \<open>write_throws\<close> says that \<^verbatim>\<open>write\<close> throws, which is what the
  \<^verbatim>\<open>try/catch\<close> of \<^verbatim>\<open>broadcast\<close> and of the heartbeat handle. \<open>listeners\<close>
  holds the event names for which \<^verbatim>\<open>addClient\<close> registered the callback
  \<^verbatim>\<open>() => this.clients.delete(res)\<close>. The live set \<^verbatim>\<open>this.clients\<close> is a
  JavaScript \<^verbatim>\<open>Set\<close>: a duplicate-free list in insertion order, which is the order of
  iteration.
\<close>

definition event_frame :: "string \<Rightarrow> (string \<times> jvalue) list \<Rightarrow> string" where
  "event_frame ev dat = ''event: '' @ ev @ [LF] @ ''data: '' @ JSON_stringify dat @ [LF, LF]"

definition heartbeat_frame :: string where
  "heartbeat_frame = [CHR '':'', LF, LF]"

record channel =
  head_sent :: "(nat \<times> (string \<times> string) list) option"
  written :: "string list"
  write_calls :: "string list"
  write_throws :: bool
  listeners :: "string list"

definition writeHead ::
  "nat \<Rightarrow> (string \<times> string) list \<Rightarrow> channel \<Rightarrow> unit outcome \<times> channel" where
  "writeHead status hs ch =
     (case head_sent ch of
        Some sent \<Rightarrow> (Threw, ch)
      | None \<Rightarrow> (Returned (), ch\<lparr>head_sent := Some (status, hs)\<rparr>))"

definition ch_write :: "string \<Rightarrow> channel \<Rightarrow> unit outcome \<times> channel" where
  "ch_write msg ch =
     (let ch' = ch\<lparr>write_calls := write_calls ch @ [msg]\<rparr> in
      if write_throws ch then (Threw, ch')
      else (Returned (), ch'\<lparr>written := written ch @ [msg]\<rparr>))"

definition sse_headers :: "(string \<times> string) list" where
  "sse_headers =
     [(''Content-Type'', ''text/event-stream''),
      (''Cache-Control'', ''no-cache''),
      (''Connection'', ''keep-alive''),
      (''X-Accel-Buffering'', ''no''),
      (''Access-Control-Allow-Origin'', ''*'')]"

record SSEManager =
  clients :: "nat list"
  maxConnections :: nat
  heartbeatInterval :: bool
  channels :: "nat \<Rightarrow> channel"

definition set_add :: "nat \<Rightarrow> nat list \<Rightarrow> nat list" where
  "set_add c cs = (if c \<in> set cs then cs else cs @ [c])"

definition set_delete :: "nat \<Rightarrow> nat list \<Rightarrow> nat list" where
  "set_delete c cs = removeAll c cs"

definition new_SSEManager :: "(nat \<Rightarrow> channel) \<Rightarrow> SSEManager" where
  "new_SSEManager heap =
     \<lparr>clients = [], maxConnections = 2000, heartbeatInterval = True, channels = heap\<rparr>"

definition getClientCount :: "SSEManager \<Rightarrow> nat" where
  "getClientCount h = length (clients h)"

definition isAtCapacity :: "SSEManager \<Rightarrow> bool" where
  "isAtCapacity h = (maxConnections h \<le> length (clients h))"

definition addClient :: "nat \<Rightarrow> SSEManager \<Rightarrow> bool outcome \<times> SSEManager" where
  "addClient res h =
     (if maxConnections h \<le> length (clients h) then (Returned False, h)
      else
        (case writeHead 200 sse_headers (channels h res) of
           (Threw, ch) \<Rightarrow> (Threw, h\<lparr>channels := (channels h)(res := ch)\<rparr>)
         | (Returned u, ch) \<Rightarrow>
             (case ch_write heartbeat_frame ch of
                (Threw, ch') \<Rightarrow> (Threw, h\<lparr>channels := (channels h)(res := ch')\<rparr>)
              | (Returned u', ch') \<Rightarrow>
                  (Returned True,
                   h\<lparr>clients := set_add res (clients h),
                     channels := (channels h)
                       (res := ch'\<lparr>listeners := listeners ch' @ [''close'', ''error'']\<rparr>)\<rparr>))))"

definition emit :: "nat \<Rightarrow> string \<Rightarrow> SSEManager \<Rightarrow> SSEManager" where
  "emit res ev h =
     (if ev \<in> set (listeners (channels h res))
      then h\<lparr>clients := set_delete res (clients h)\<rparr> else h)"

fun write_each :: "string \<Rightarrow> nat list \<Rightarrow> (nat \<Rightarrow> channel) \<Rightarrow> nat list
    \<Rightarrow> (nat \<Rightarrow> channel) \<times> nat list" where
  "write_each msg [] heap failedClients = (heap, failedClients)"
| "write_each msg (c # cs) heap failedClients =
     (case ch_write msg (heap c) of
        (Threw, ch) \<Rightarrow> write_each msg cs (heap(c := ch)) (failedClients @ [c])
      | (Returned u, ch) \<Rightarrow> write_each msg cs (heap(c := ch)) failedClients)"

definition broadcast :: "string \<Rightarrow> (string \<times> jvalue) list \<Rightarrow> SSEManager \<Rightarrow> SSEManager" where
  "broadcast ev dat h =
     (case write_each (event_frame ev dat) (clients h) (channels h) [] of
        (heap, failedClients) \<Rightarrow>
          h\<lparr>clients := fold set_delete failedClients (clients h), channels := heap\<rparr>)"

definition sendHeartbeatToAll :: "SSEManager \<Rightarrow> SSEManager" where
  "sendHeartbeatToAll h =
     (case write_each heartbeat_frame (clients h) (channels h) [] of
        (heap, failedClients) \<Rightarrow>
          h\<lparr>clients := fold set_delete failedClients (clients h), channels := heap\<rparr>)"

text \<open>A run of admission attempts, in order, with the result of each.\<close>

fun admit_all :: "nat list \<Rightarrow> SSEManager \<Rightarrow> bool outcome list \<times> SSEManager" where
  "admit_all [] h = ([], h)"
| "admit_all (r # rs) h =
     (case addClient r h of
        (out, h') \<Rightarrow> (case admit_all rs h' of (outs, h'') \<Rightarrow> (out # outs, h'')))"

section \<open>The database module (db/index.js)\<close>

text \<open>
  The module the server requires as \<^verbatim>\<open>./db\<close>; its source is the second file of
  src/unnamed/part_000, and the schema it runs is the head of src/db/schema.sql.

  The table \<^verbatim>\<open>data_versions\<close> maps a key to its row \<open>(version, updated_at)\<close>; the other
  tables are the parameter \<open>content\<close>, on which the other SQL statements act. The column
  \<^verbatim>\<open>version\<close> holds whole numbers, which is what the schema's default rows and the
  increment statement put there. SQLite keeps a whole number as a 64-bit integer when it
  fits (\<open>sqlite_integer\<close>) and as a double otherwise.

  The module state holds the variables \<^verbatim>\<open>db\<close> (\<open>db_open\<close> says it is not
  \<^verbatim>\<open>null\<close>), \<^verbatim>\<open>initialized\<close>, \<^verbatim>\<open>saveTimeout\<close>, \<^verbatim>\<open>isWriting\<close> and
  \<^verbatim>\<open>pendingWrite\<close>, and the part of the event loop the module uses: the clock in
  milliseconds, the armed timeouts \<open>timers\<close> as pairs of a handle and the time they are
  due, the handle \<open>next_handle\<close> that the next \<^verbatim>\<open>setTimeout\<close> returns (handles are
  given out in order, so it counts the timeouts armed so far), and the number
  \<open>immediates\<close> of queued \<^verbatim>\<open>setImmediate(() => saveDatabase())\<close> callbacks. A
  timeout fires when the clock reaches its due time.

  Three counters observe the execution, and no function of the module reads them:
  \<open>save_calls\<close> counts the calls of \<^verbatim>\<open>saveDatabase\<close>, \<open>writes_started\<close> the calls
  that went on to write the file, and \<open>writes_active\<close> the writes that have started and
  not yet reached the \<^verbatim>\<open>finally\<close> block.
\<close>

record 'd tables =
  data_versions :: "string \<rightharpoonup> int \<times> string"
  content :: 'd

record 'd Database =
  db_open :: bool
  initialized :: bool
  tables :: "'d tables"
  clock :: nat
  saveTimeout :: "nat option"
  timers :: "(nat \<times> nat) list"
  next_handle :: nat
  isWriting :: bool
  pendingWrite :: bool
  immediates :: nat
  save_calls :: nat
  writes_started :: nat
  writes_active :: nat

definition module_loaded :: "'d \<Rightarrow> 'd Database" where
  "module_loaded blank =
     \<lparr>db_open = False, initialized = False,
      tables = \<lparr>data_versions = Map.empty, content = blank\<rparr>,
      clock = 0, saveTimeout = None, timers = [], next_handle = 0,
      isWriting = False, pendingWrite = False, immediates = 0,
      save_calls = 0, writes_started = 0, writes_active = 0\<rparr>"

definition clearTimeout :: "nat \<Rightarrow> 'd Database \<Rightarrow> 'd Database" where
  "clearTimeout h s = s\<lparr>timers := filter (\<lambda>(h', due). h' \<noteq> h) (timers s)\<rparr>"

definition scheduleSave :: "'d Database \<Rightarrow> 'd Database" where
  "scheduleSave s =
     (let s1 = (case saveTimeout s of None \<Rightarrow> s | Some h \<Rightarrow> clearTimeout h s) in
      s1\<lparr>timers := timers s1 @ [(next_handle s1, clock s1 + 1000)],
         saveTimeout := Some (next_handle s1),
         next_handle := Suc (next_handle s1)\<rparr>)"

text \<open>
  \<^verbatim>\<open>saveDatabase\<close> up to its first \<^verbatim>\<open>await\<close>, and \<open>write_settles\<close>, its
  \<^verbatim>\<open>finally\<close> block, which runs when the awaited write has succeeded or failed, and
  so only while a write is in progress. \<open>immediate_runs\<close> is the callback queued by
  \<^verbatim>\<open>setImmediate\<close>, and \<open>advance\<close> moves the clock to a time and fires the timeouts
  due by then, each of which calls \<^verbatim>\<open>saveDatabase\<close>.
\<close>

definition saveDatabase :: "'d Database \<Rightarrow> 'd Database" where
  "saveDatabase s0 =
     (let s = s0\<lparr>save_calls := Suc (save_calls s0)\<rparr> in
      if \<not> db_open s then s
      else if isWriting s then s\<lparr>pendingWrite := True\<rparr>
      else s\<lparr>isWriting := True,
             writes_started := Suc (writes_started s),
             writes_active := Suc (writes_active s)\<rparr>)"

definition write_settles :: "'d Database \<Rightarrow> 'd Database" where
  "write_settles s =
     (if writes_active s = 0 then s
      else
        (let s1 = s\<lparr>isWriting := False, writes_active := writes_active s - 1\<rparr> in
         if pendingWrite s1
         then s1\<lparr>pendingWrite := False, immediates := Suc (immediates s1)\<rparr>
         else s1))"

definition immediate_runs :: "'d Database \<Rightarrow> 'd Database" where
  "immediate_runs s =
     (if immediates s = 0 then s
      else saveDatabase (s\<lparr>immediates := immediates s - 1\<rparr>))"

definition advance :: "nat \<Rightarrow> 'd Database \<Rightarrow> 'd Database" where
  "advance t s =
     (let now = max (clock s) t;
          due = filter (\<lambda>(h, d). d \<le> now) (timers s);
          s1 = s\<lparr>clock := now, timers := filter (\<lambda>(h, d). \<not> d \<le> now) (timers s)\<rparr>
      in (saveDatabase ^^ length due) s1)"

text \<open>
  \<^verbatim>\<open>run(sql, params)\<close> executes a statement and schedules a save. The statement is
  given as its effect on the tables and the number of rows it modifies, or \<open>None\<close> when
  SQLite rejects it (a constraint is violated) and \<^verbatim>\<open>db.run\<close> throws; on a closed
  database \<^verbatim>\<open>db.run\<close> throws too. \<open>schema_sql\<close> is the part of schema.sql that
  writes \<^verbatim>\<open>data_versions\<close>: three \<^verbatim>\<open>INSERT OR IGNORE\<close> statements.
\<close>

definition run ::
  "('d tables \<Rightarrow> ('d tables \<times> nat) option) \<Rightarrow> 'd Database \<Rightarrow> nat outcome \<times> 'd Database" where
  "run sql s =
     (if \<not> db_open s then (Threw, s)
      else (case sql (tables s) of
              None \<Rightarrow> (Threw, s)
            | Some (tb, changes) \<Rightarrow> (Returned changes, scheduleSave (s\<lparr>tables := tb\<rparr>))))"

text \<open>
  \<^verbatim>\<open>transaction(fn)()\<close>: \<^verbatim>\<open>BEGIN\<close>, the body, \<^verbatim>\<open>COMMIT\<close> and one more
  \<^verbatim>\<open>scheduleSave()\<close>; when the body throws, \<^verbatim>\<open>ROLLBACK\<close> restores the tables
  and the exception goes on to the caller (the timeouts the body armed stay armed).
  \<open>run_each\<close> is a body that runs statements one after the other.
\<close>

definition transaction ::
  "('d Database \<Rightarrow> unit outcome \<times> 'd Database) \<Rightarrow> 'd Database \<Rightarrow> unit outcome \<times> 'd Database" where
  "transaction fn s =
     (if \<not> db_open s then (Threw, s)
      else (case fn s of
              (Threw, s') \<Rightarrow> (Threw, s'\<lparr>tables := tables s\<rparr>)
            | (Returned u, s') \<Rightarrow> (Returned (), scheduleSave s')))"

fun run_each ::
  "('d tables \<Rightarrow> ('d tables \<times> nat) option) list \<Rightarrow> 'd Database \<Rightarrow> unit outcome \<times> 'd Database" where
  "run_each [] s = (Returned (), s)"
| "run_each (sql # sqls) s =
     (case run sql s of
        (Threw, s') \<Rightarrow> (Threw, s')
      | (Returned changes, s') \<Rightarrow> run_each sqls s')"

definition insert_or_ignore :: "string \<Rightarrow> int \<Rightarrow> string \<Rightarrow> 'd tables \<Rightarrow> 'd tables" where
  "insert_or_ignore key v at tb =
     (case data_versions tb key of
        Some row \<Rightarrow> tb
      | None \<Rightarrow> tb\<lparr>data_versions := (data_versions tb)(key \<mapsto> (v, at))\<rparr>)"

definition schema_sql :: "string \<Rightarrow> 'd tables \<Rightarrow> 'd tables" where
  "schema_sql at tb =
     insert_or_ignore ''sponsors'' 0 at
       (insert_or_ignore ''rules'' 0 at (insert_or_ignore ''raffles'' 0 at tb))"

definition initDb :: "'d tables \<Rightarrow> string \<Rightarrow> 'd Database \<Rightarrow> 'd Database" where
  "initDb loaded at s =
     (if initialized s then s
      else (scheduleSave (s\<lparr>db_open := True, tables := schema_sql at loaded\<rparr>))
             \<lparr>initialized := True\<rparr>)"

definition closeDb :: "'d Database \<Rightarrow> 'd Database" where
  "closeDb s =
     (let s1 = (case saveTimeout s of None \<Rightarrow> s | Some h \<Rightarrow> saveDatabase (clearTimeout h s)) in
      if db_open s1 then s1\<lparr>db_open := False, initialized := False\<rparr> else s1)"

text \<open>
  The version statements and \<^verbatim>\<open>bumpVersion\<close>. \<open>sqlite_plus_one\<close> is the SQL
  expression \<^verbatim>\<open>version + 1\<close>: integer addition while the result is a 64-bit integer,
  and the addition of doubles otherwise. \<^verbatim>\<open>getVersion.get\<close> reads the column through
  sql.js, which returns every numeric column as a JavaScript number, so the counter comes
  back through \<open>to_double\<close>. \<open>version_or_zero\<close> is \<^verbatim>\<open>row?.version || 0\<close>.
\<close>

definition sqlite_integer :: "int \<Rightarrow> bool" where
  "sqlite_integer v = (- (2 ^ 63) \<le> v \<and> v < 2 ^ 63)"

definition sqlite_plus_one :: "int \<Rightarrow> int" where
  "sqlite_plus_one v =
     (if sqlite_integer v \<and> sqlite_integer (v + 1) then v + 1 else to_double (v + 1))"

definition getVersion_get :: "string \<Rightarrow> 'd Database \<Rightarrow> int option outcome" where
  "getVersion_get key s =
     (if \<not> db_open s then Threw
      else Returned (map_option (\<lambda>(v, u). to_double v) (data_versions (tables s) key)))"

definition incrementVersion_sql ::
  "string \<Rightarrow> string \<Rightarrow> 'd tables \<Rightarrow> ('d tables \<times> nat) option" where
  "incrementVersion_sql updatedAt key tb =
     (case data_versions tb key of
        None \<Rightarrow> Some (tb, 0)
      | Some (v, u) \<Rightarrow>
          Some (tb\<lparr>data_versions := (data_versions tb)(key \<mapsto> (sqlite_plus_one v, updatedAt))\<rparr>, 1))"

definition version_or_zero :: "int option \<Rightarrow> int" where
  "version_or_zero row = (case row of None \<Rightarrow> 0 | Some v \<Rightarrow> if v = 0 then 0 else v)"

definition bumpVersion :: "string \<Rightarrow> string \<Rightarrow> 'd Database \<Rightarrow> int outcome \<times> 'd Database" where
  "bumpVersion key at s =
     (case run (incrementVersion_sql at key) s of
        (Threw, s') \<Rightarrow> (Threw, s')
      | (Returned changes, s') \<Rightarrow>
          (case getVersion_get key s' of
             Threw \<Rightarrow> (Threw, s')
           | Returned row \<Rightarrow> (Returned (version_or_zero row), s')))"

text \<open>
  What can happen to the module, one event at a time: its exported functions are called,
  time passes and due timeouts fire, a write in progress settles, a queued immediate runs.
\<close>

datatype 'd event =
    InitDb "'d tables" string
  | Statement "'d \<Rightarrow> 'd"
  | BumpVersion string string
  | TimePasses nat
  | WriteSettles
  | ImmediateRuns
  | SaveDatabase
  | CloseDb

fun step :: "'d event \<Rightarrow> 'd Database \<Rightarrow> 'd Database" where
  "step (InitDb loaded at) s = initDb loaded at s"
| "step (Statement f) s = snd (run (\<lambda>tb. Some (tb\<lparr>content := f (content tb)\<rparr>, 1)) s)"
| "step (BumpVersion key at) s = snd (bumpVersion key at s)"
| "step (TimePasses t) s = advance t s"
| "step WriteSettles s = write_settles s"
| "step ImmediateRuns s = immediate_runs s"
| "step SaveDatabase s = saveDatabase s"
| "step CloseDb s = closeDb s"

fun exec :: "'d event list \<Rightarrow> 'd Database \<Rightarrow> 'd Database" where
  "exec [] s = s"
| "exec (e # es) s = exec es (step e s)"

text \<open>
  Mutations at the times \<open>ts\<close>: before each one the clock advances to its time, then
  \<^verbatim>\<open>scheduleSave\<close> is called. \<open>within_window t ts\<close> says that the times after \<open>t\<close> do
  not decrease and each is less than 1000 ms after the one before; \<open>spaced t ts\<close> that each
  is more than 1000 ms after the one before.
\<close>

fun mutations :: "nat list \<Rightarrow> 'd Database \<Rightarrow> 'd Database" where
  "mutations [] s = s"
| "mutations (t # ts) s = mutations ts (scheduleSave (advance t s))"

fun within_window :: "nat \<Rightarrow> nat list \<Rightarrow> bool" where
  "within_window t [] = True"
| "within_window t (u # us) = (t \<le> u \<and> u < t + 1000 \<and> within_window u us)"

fun spaced :: "nat \<Rightarrow> nat list \<Rightarrow> bool" where
  "spaced t [] = True"
| "spaced t (u # us) = (t + 1000 < u \<and> spaced u us)"

text \<open>
  The same mutations when every write has settled before the next mutation arrives:
  between the advance of the clock and the call of \<^verbatim>\<open>scheduleSave\<close> a write in
  progress reaches its \<^verbatim>\<open>finally\<close> block. \<open>idle_open\<close>: the database is open, no
  write is in progress and none is pending.
\<close>

fun mutations_settled :: "nat list \<Rightarrow> 'd Database \<Rightarrow> 'd Database" where
  "mutations_settled [] s = s"
| "mutations_settled (t # ts) s = mutations_settled ts (scheduleSave (write_settles (advance t s)))"

definition idle_open :: "'d Database \<Rightarrow> bool" where
  "idle_open s = (db_open s \<and> \<not> isWriting s \<and> \<not> pendingWrite s \<and> writes_active s = 0)"

fun is_close :: "'d event \<Rightarrow> bool" where
  "is_close CloseDb = True"
| "is_close _ = False"

definition single_flight :: "'d Database \<Rightarrow> bool" where
  "single_flight s = (writes_active s = (if isWriting s then 1 else 0))"

definition armed :: "'d Database \<Rightarrow> nat \<Rightarrow> bool" where
  "armed s due = (\<exists>h. timers s = [(h, due)] \<and> saveTimeout s = Some h)"

text \<open>
  Observations of the version table: the stored counter of a key, successive calls of
  \<^verbatim>\<open>bumpVersion\<close> on one key with their results, and the number of \<^verbatim>\<open>bumpVersion\<close>
  events for a key in a run. \<open>fresh_database\<close> is the module after \<^verbatim>\<open>initDb\<close> has
  created a new database and run the schema.
\<close>

fun bump_many :: "string \<Rightarrow> string list \<Rightarrow> 'd Database \<Rightarrow> int outcome list \<times> 'd Database" where
  "bump_many key [] s = ([], s)"
| "bump_many key (at # ats) s =
     (case bumpVersion key at s of
        (r, s') \<Rightarrow> (case bump_many key ats s' of (rs, s'') \<Rightarrow> (r # rs, s'')))"

definition stored_version :: "'d Database \<Rightarrow> string \<Rightarrow> int option" where
  "stored_version s key = map_option fst (data_versions (tables s) key)"

fun is_bump :: "string \<Rightarrow> 'd event \<Rightarrow> bool" where
  "is_bump d (BumpVersion key at) = (key = d)"
| "is_bump d _ = False"

definition count_bumps :: "string \<Rightarrow> 'd event list \<Rightarrow> nat" where
  "count_bumps d es = length (filter (is_bump d) es)"

definition fresh_database :: "'d \<Rightarrow> string \<Rightarrow> 'd Database" where
  "fresh_database blank at =
     initDb \<lparr>data_versions = Map.empty, content = blank\<rparr> at (module_loaded blank)"

section \<open>The HTTP handlers (server.js)\<close>

text \<open>
  The Express server that requires \<^verbatim>\<open>./db\<close>, \<^verbatim>\<open>./cache\<close> and \<^verbatim>\<open>./sse\<close>; its
  source is the last file of src/db/schema.sql.

  \<^verbatim>\<open>parseInt(string)\<close> with no radix: leading white space is skipped, a sign is read, a
  prefix \<^verbatim>\<open>0x\<close> selects radix 16, and the longest run of digits is the number, whatever
  follows it, as the nearest double (Node's engine rounds the digits correctly); with no
  digit the result is \<^verbatim>\<open>NaN\<close>. A header value is a string of 8-bit characters.
\<close>

definition is_space :: "char \<Rightarrow> bool" where
  "is_space c = ((of_char c :: nat) \<in> {9, 10, 11, 12, 13, 32, 160})"

definition digit_of :: "nat \<Rightarrow> char \<Rightarrow> nat option" where
  "digit_of R c =
     (let n = (of_char c :: nat);
          d = (if 48 \<le> n \<and> n \<le> 57 then Some (n - 48)
               else if 97 \<le> n \<and> n \<le> 122 then Some (n - 87)
               else if 65 \<le> n \<and> n \<le> 90 then Some (n - 55)
               else None)
      in case d of None \<Rightarrow> None | Some v \<Rightarrow> if v < R then Some v else None)"

fun take_digits :: "nat \<Rightarrow> string \<Rightarrow> nat list" where
  "take_digits R [] = []"
| "take_digits R (c # cs) =
     (case digit_of R c of None \<Rightarrow> [] | Some d \<Rightarrow> d # take_digits R cs)"

definition digits_value :: "nat \<Rightarrow> nat list \<Rightarrow> nat" where
  "digits_value R ds = foldl (\<lambda>a d. a * R + d) 0 ds"

definition parseInt :: "string \<Rightarrow> number" where
  "parseInt s =
     (let S = dropWhile is_space s;
          neg = (case S of [] \<Rightarrow> False | c # r \<Rightarrow> c = CHR ''-'');
          S1 = (case S of [] \<Rightarrow> S | c # r \<Rightarrow> if c = CHR ''-'' \<or> c = CHR ''+'' then r else S);
          hex = (case S1 of a # b # r \<Rightarrow> a = CHR ''0'' \<and> (b = CHR ''x'' \<or> b = CHR ''X'')
                          | _ \<Rightarrow> False);
          R = (if hex then 16 else 10);
          S2 = (if hex then drop 2 S1 else S1);
          ds = take_digits R S2
      in if ds = [] then NaN else to_number neg (digits_value R ds))"

definition is_decimal :: "char \<Rightarrow> bool" where
  "is_decimal c = (48 \<le> (of_char c :: nat) \<and> (of_char c :: nat) \<le> 57)"

text \<open>
  The server owns the database module, the cache and the hub. \<open>trace\<close> records, in the
  order of execution, the steps the handlers issue: a scheduled save, a cache
  invalidation, a version increment and a broadcast. It is written only, never read.
  \<open>in_database\<close> calls a function of the database module and records one
  \<open>ScheduleSave\<close> for every timeout the module armed during the call (the module arms
  timeouts nowhere but in \<^verbatim>\<open>scheduleSave\<close>, and \<open>next_handle\<close> counts them).
\<close>

datatype effect =
    ScheduleSave
  | InvalidateCache string
  | IncrementVersion string
  | Broadcast string "(string \<times> jvalue) list"

record ('d, 'p) server =
  database :: "'d Database"
  data_cache :: "'p DataCache"
  sse :: SSEManager
  trace :: "effect list"

definition in_database ::
  "('d Database \<Rightarrow> 'a \<times> 'd Database) \<Rightarrow> ('d, 'p) server \<Rightarrow> 'a \<times> ('d, 'p) server" where
  "in_database f s =
     (case f (database s) of
        (r, db) \<Rightarrow>
          (r, s\<lparr>database := db,
                trace := trace s
                  @ replicate (next_handle db - next_handle (database s)) ScheduleSave\<rparr>))"

text \<open>
  A statement of \<^verbatim>\<open>statements\<close> on the tables of a domain, with its parameters
  bound: its effect on \<open>content\<close> and the rows it modifies, or \<open>None\<close> when SQLite
  rejects it. \<open>statement_run\<close> is its \<^verbatim>\<open>.run(\<dots>)\<close>.
\<close>

type_synonym 'd statement = "'d \<Rightarrow> ('d \<times> nat) option"

definition on_content :: "'d statement \<Rightarrow> 'd tables \<Rightarrow> ('d tables \<times> nat) option" where
  "on_content f tb = map_option (\<lambda>(c, changes). (tb\<lparr>content := c\<rparr>, changes)) (f (content tb))"

definition statement_run ::
  "'d statement \<Rightarrow> ('d, 'p) server \<Rightarrow> nat outcome \<times> ('d, 'p) server" where
  "statement_run f = in_database (run (on_content f))"

definition srv_invalidate :: "string \<Rightarrow> ('d, 'p) server \<Rightarrow> ('d, 'p) server" where
  "srv_invalidate key s =
     s\<lparr>data_cache := invalidate key (data_cache s), trace := trace s @ [InvalidateCache key]\<rparr>"

definition srv_bumpVersion ::
  "string \<Rightarrow> string \<Rightarrow> ('d, 'p) server \<Rightarrow> int outcome \<times> ('d, 'p) server" where
  "srv_bumpVersion key at s =
     (case bumpVersion key at (database s) of
        (Threw, db) \<Rightarrow> (Threw, s\<lparr>database := db\<rparr>)
      | (Returned v, db) \<Rightarrow>
          (Returned v,
           s\<lparr>database := db,
             trace := trace s @ IncrementVersion key
               # replicate (next_handle db - next_handle (database s)) ScheduleSave\<rparr>))"

definition update_data :: "string \<Rightarrow> int \<Rightarrow> (string \<times> jvalue) list" where
  "update_data type v = [(''type'', JString type), (''version'', JNumber v)]"

definition notifyClients :: "string \<Rightarrow> ('d, 'p) server \<Rightarrow> unit outcome \<times> ('d, 'p) server" where
  "notifyClients type s =
     (case getVersion_get type (database s) of
        Threw \<Rightarrow> (Threw, s)
      | Returned row \<Rightarrow>
          (Returned (),
           s\<lparr>sse := broadcast ''update'' (update_data type (version_or_zero row)) (sse s),
             trace := trace s
               @ [Broadcast ''update'' (update_data type (version_or_zero row))]\<rparr>))"

text \<open>
  The tail the mutating handlers of a versioned domain end with:
  \<^verbatim>\<open>cache.invalidate(key); bumpVersion(key); notifyClients(key);\<close> and then the answer
  \<^verbatim>\<open>res.json({ success: true, \<dots> })\<close>. The handler bodies are inside
  \<^verbatim>\<open>try/catch\<close>: an exception anywhere is answered with status 500.
\<close>

definition mutation_tail ::
  "string \<Rightarrow> string \<Rightarrow> ('d, 'p) server \<Rightarrow> unit outcome \<times> ('d, 'p) server" where
  "mutation_tail key at s =
     (case srv_bumpVersion key at (srv_invalidate key s) of
        (Threw, s') \<Rightarrow> (Threw, s')
      | (Returned v, s') \<Rightarrow> notifyClients key s')"

definition tail_and_answer :: "string \<Rightarrow> string \<Rightarrow> ('d, 'p) server \<Rightarrow> nat \<times> ('d, 'p) server" where
  "tail_and_answer key at s =
     (case mutation_tail key at s of
        (Threw, s') \<Rightarrow> (500, s')
      | (Returned u, s') \<Rightarrow> (200, s'))"

definition run_then_tail ::
  "string \<Rightarrow> 'd statement \<Rightarrow> string \<Rightarrow> ('d, 'p) server \<Rightarrow> nat \<times> ('d, 'p) server" where
  "run_then_tail key f at s =
     (case statement_run f s of
        (Threw, s') \<Rightarrow> (500, s')
      | (Returned changes, s') \<Rightarrow> tail_and_answer key at s')"

text \<open>
  The mutating handlers of the three versioned domains. \<open>checks\<close> is what happens to the
  request before the handler's first statement: the middleware in front of it (rate
  limiters, body parsers, the upload filter) or one of the handler's own checks
  (credentials, required fields, the image of a new raffle, the existence of the row)
  answers it with an error status, or the request proceeds. \<open>at\<close> is the time stamp
  \<^verbatim>\<open>bumpVersion\<close> writes. From its first statement to its answer a handler runs
  without interruption, with one exception.

  \<^verbatim>\<open>PUT /api/raffles/:id\<close> runs \<^verbatim>\<open>updateRaffle\<close> first and handles the image
  afterwards: \<open>image\<close> says whether the request names an image URL (and whether the
  download succeeds), carries an uploaded file, or neither. With an image URL the handler
  awaits the download, and until it resumes the rest of the server goes on: other
  requests are handled, time passes, timeouts fire. \<open>meanwhile\<close> is what all that does
  to the state. A failed download is answered with status 400 at once.
  \<^verbatim>\<open>PUT /api/raffles/reorder\<close> runs one \<^verbatim>\<open>updateRaffleNumber\<close> per id inside
  \<^verbatim>\<open>transaction\<close>.
\<close>

datatype checks = Answered nat | Proceeds

datatype image = ImageUrl bool | ImageFile | NoImage

definition post_raffles ::
  "checks \<Rightarrow> 'd statement \<Rightarrow> string \<Rightarrow> ('d, 'p) server \<Rightarrow> nat \<times> ('d, 'p) server" where
  "post_raffles e insertRaffle at s =
     (case e of Answered st \<Rightarrow> (st, s) | Proceeds \<Rightarrow> run_then_tail ''raffles'' insertRaffle at s)"

definition put_raffles_reorder ::
  "checks \<Rightarrow> 'd statement list \<Rightarrow> string \<Rightarrow> ('d, 'p) server \<Rightarrow> nat \<times> ('d, 'p) server" where
  "put_raffles_reorder e updateRaffleNumbers at s =
     (case e of
        Answered st \<Rightarrow> (st, s)
      | Proceeds \<Rightarrow>
          (case in_database (transaction (run_each (map on_content updateRaffleNumbers))) s of
             (Threw, s') \<Rightarrow> (500, s')
           | (Returned u, s') \<Rightarrow> tail_and_answer ''raffles'' at s'))"

definition put_raffle ::
  "checks \<Rightarrow> 'd statement \<Rightarrow> image \<Rightarrow> (('d, 'p) server \<Rightarrow> ('d, 'p) server) \<Rightarrow> 'd statement
     \<Rightarrow> string \<Rightarrow> ('d, 'p) server \<Rightarrow> nat \<times> ('d, 'p) server" where
  "put_raffle e updateRaffle img meanwhile updateRaffleImage at s =
     (case e of
        Answered st \<Rightarrow> (st, s)
      | Proceeds \<Rightarrow>
          (case statement_run updateRaffle s of
             (Threw, s1) \<Rightarrow> (500, s1)
           | (Returned changes, s1) \<Rightarrow>
               (case img of
                  ImageUrl downloaded \<Rightarrow>
                    (if downloaded
                     then run_then_tail ''raffles'' updateRaffleImage at (meanwhile s1)
                     else (400, meanwhile s1))
                | ImageFile \<Rightarrow> run_then_tail ''raffles'' updateRaffleImage at s1
                | NoImage \<Rightarrow> tail_and_answer ''raffles'' at s1)))"

definition put_raffle_winner ::
  "checks \<Rightarrow> 'd statement \<Rightarrow> string \<Rightarrow> ('d, 'p) server \<Rightarrow> nat \<times> ('d, 'p) server" where
  "put_raffle_winner e updateWinner at s =
     (case e of Answered st \<Rightarrow> (st, s) | Proceeds \<Rightarrow> run_then_tail ''raffles'' updateWinner at s)"

definition delete_raffle ::
  "checks \<Rightarrow> 'd statement \<Rightarrow> string \<Rightarrow> ('d, 'p) server \<Rightarrow> nat \<times> ('d, 'p) server" where
  "delete_raffle e deleteRaffle at s =
     (case e of Answered st \<Rightarrow> (st, s) | Proceeds \<Rightarrow> run_then_tail ''raffles'' deleteRaffle at s)"

definition put_rules ::
  "checks \<Rightarrow> 'd statement \<Rightarrow> string \<Rightarrow> ('d, 'p) server \<Rightarrow> nat \<times> ('d, 'p) server" where
  "put_rules e upsertRules at s =
     (case e of Answered st \<Rightarrow> (st, s) | Proceeds \<Rightarrow> run_then_tail ''rules'' upsertRules at s)"

definition post_sponsors ::
  "checks \<Rightarrow> 'd statement \<Rightarrow> string \<Rightarrow> ('d, 'p) server \<Rightarrow> nat \<times> ('d, 'p) server" where
  "post_sponsors e insertSponsor at s =
     (case e of Answered st \<Rightarrow> (st, s) | Proceeds \<Rightarrow> run_then_tail ''sponsors'' insertSponsor at s)"

definition delete_sponsor ::
  "checks \<Rightarrow> 'd statement \<Rightarrow> string \<Rightarrow> ('d, 'p) server \<Rightarrow> nat \<times> ('d, 'p) server" where
  "delete_sponsor e deleteSponsor at s =
     (case e of Answered st \<Rightarrow> (st, s) | Proceeds \<Rightarrow> run_then_tail ''sponsors'' deleteSponsor at s)"

text \<open>
  The mutating routes of the versioned domains with the statements of a request, the
  domain each belongs to, and the router. A handler's last stretch is its run from the
  point where it last resumed: \<open>suspended\<close> is the state in which the handler awaits a
  download (the state it starts in when it never does), \<open>earlier_saves\<close> the saves it
  has scheduled by then, \<open>resumed\<close> the state in which the last stretch begins, and
  \<open>statement_saves\<close> the saves the statements of the last stretch schedule when all of
  them run.
\<close>

datatype ('d, 'p) mutation =
    PostRaffles "'d statement"
  | PutRafflesReorder "'d statement list"
  | PutRaffle "'d statement" image "('d, 'p) server \<Rightarrow> ('d, 'p) server" "'d statement"
  | PutRaffleWinner "'d statement"
  | DeleteRaffle "'d statement"
  | PutRules "'d statement"
  | PostSponsors "'d statement"
  | DeleteSponsor "'d statement"

fun domain_of :: "('d, 'p) mutation \<Rightarrow> string" where
  "domain_of (PutRules f) = ''rules''"
| "domain_of (PostSponsors f) = ''sponsors''"
| "domain_of (DeleteSponsor f) = ''sponsors''"
| "domain_of _ = ''raffles''"

fun handle ::
  "checks \<Rightarrow> ('d, 'p) mutation \<Rightarrow> string \<Rightarrow> ('d, 'p) server \<Rightarrow> nat \<times> ('d, 'p) server" where
  "handle e (PostRaffles f) at s = post_raffles e f at s"
| "handle e (PutRafflesReorder fs) at s = put_raffles_reorder e fs at s"
| "handle e (PutRaffle f img meanwhile g) at s = put_raffle e f img meanwhile g at s"
| "handle e (PutRaffleWinner f) at s = put_raffle_winner e f at s"
| "handle e (DeleteRaffle f) at s = delete_raffle e f at s"
| "handle e (PutRules f) at s = put_rules e f at s"
| "handle e (PostSponsors f) at s = post_sponsors e f at s"
| "handle e (DeleteSponsor f) at s = delete_sponsor e f at s"

fun suspended :: "('d, 'p) mutation \<Rightarrow> ('d, 'p) server \<Rightarrow> ('d, 'p) server" where
  "suspended (PutRaffle f (ImageUrl downloaded) meanwhile g) s = snd (statement_run f s)"
| "suspended _ s = s"

fun earlier_saves :: "('d, 'p) mutation \<Rightarrow> nat" where
  "earlier_saves (PutRaffle f (ImageUrl downloaded) meanwhile g) = 1"
| "earlier_saves _ = 0"

fun resumed :: "('d, 'p) mutation \<Rightarrow> ('d, 'p) server \<Rightarrow> ('d, 'p) server" where
  "resumed (PutRaffle f (ImageUrl downloaded) meanwhile g) s
     = meanwhile (snd (statement_run f s))"
| "resumed _ s = s"

fun statement_saves :: "('d, 'p) mutation \<Rightarrow> nat" where
  "statement_saves (PutRafflesReorder fs) = Suc (length fs)"
| "statement_saves (PutRaffle f ImageFile meanwhile g) = 2"
| "statement_saves _ = 1"

text \<open>
  \<open>precedes a b tr\<close>: the step \<open>a\<close> occurs in \<open>tr\<close> and \<open>b\<close> occurs after its first
  occurrence. \<open>claimed_order\<close> is the order scheduled, incremented, invalidated, notified.
  \<open>save_armed s due\<close>: the timeout that \<^verbatim>\<open>saveTimeout\<close> names is armed and due at
  \<open>due\<close>.
\<close>

fun precedes :: "'a \<Rightarrow> 'a \<Rightarrow> 'a list \<Rightarrow> bool" where
  "precedes a b [] = False"
| "precedes a b (x # xs) = (if x = a then b \<in> set xs else precedes a b xs)"

definition claimed_order :: "string \<Rightarrow> effect list \<Rightarrow> bool" where
  "claimed_order d tr =
     (precedes ScheduleSave (IncrementVersion d) tr
      \<and> precedes (IncrementVersion d) (InvalidateCache d) tr
      \<and> list_ex (\<lambda>e. case e of Broadcast ev dat \<Rightarrow> True | _ \<Rightarrow> False)
           (dropWhile (\<lambda>e. e \<noteq> InvalidateCache d) tr))"

definition save_armed :: "'d Database \<Rightarrow> nat \<Rightarrow> bool" where
  "save_armed s due =
     (case saveTimeout s of None \<Rightarrow> False | Some h \<Rightarrow> (h, due) \<in> set (timers s))"

text \<open>
  The read handlers \<^verbatim>\<open>app.get('/api/raffles')\<close>, \<^verbatim>\<open>'/api/rules'\<close> and
  \<^verbatim>\<open>'/api/sponsors'\<close>. Express routes \<^verbatim>\<open>GET\<close> and \<^verbatim>\<open>HEAD\<close> requests to them.
  Of a request the handlers and \<^verbatim>\<open>res.json\<close> read the method and three headers, each
  absent or a string. \<open>truthy\<close> is the JavaScript test of such a header: present and
  not empty; \<open>header_text\<close> is the string of a header that passed the test.
\<close>

datatype http_method = GET | HEAD

record request =
  http_method :: http_method
  if_none_match :: "string option"
  if_modified_since :: "string option"
  cache_control_header :: "string option"

definition truthy :: "string option \<Rightarrow> bool" where
  "truthy h = (case h of None \<Rightarrow> False | Some v \<Rightarrow> v \<noteq> [])"

definition header_text :: "string option \<Rightarrow> string" where
  "header_text h = (case h of None \<Rightarrow> [] | Some v \<Rightarrow> v)"

text \<open>
  \<^verbatim>\<open>res.json(body)\<close> ends in Express's \<^verbatim>\<open>res.send\<close>, which asks \<^verbatim>\<open>req.fresh\<close>
  and, when the request is fresh, turns the answer into status 304 without a body; for a
  \<^verbatim>\<open>HEAD\<close> request it sends no body either. \<^verbatim>\<open>req.fresh\<close> is the function of the
  package \<^verbatim>\<open>fresh\<close> on the request headers and the response's \<^verbatim>\<open>ETag\<close> and
  \<^verbatim>\<open>Last-Modified\<close>, and these handlers set no \<^verbatim>\<open>Last-Modified\<close>. The version of
  Express the server installs is not in the repository, and the two lines of Express
  differ in one place, so it is a parameter: Express 4 (fresh 0.5) also looks at
  \<^verbatim>\<open>If-Modified-Since\<close> after a matching \<^verbatim>\<open>If-None-Match\<close>, Express 5 (fresh 2)
  ignores it then.

  \<open>split_commas\<close> splits at commas; \<open>no_cache\<close> is the test of the request's
  \<^verbatim>\<open>Cache-Control\<close> against the pattern \<^verbatim>\<open>(?:^|,)\s*?no-cache\s*?(?:,|$)\<close>;
  \<open>parseTokenList\<close> gives the members of \<^verbatim>\<open>If-None-Match\<close>, each without the spaces
  around it.
\<close>

datatype express = Express4 | Express5

fun split_commas :: "string \<Rightarrow> string list" where
  "split_commas [] = [[]]"
| "split_commas (c # cs) =
     (if c = CHR '','' then [] # split_commas cs
      else (case split_commas cs of
              [] \<Rightarrow> [[c]]
            | piece # pieces \<Rightarrow> (c # piece) # pieces))"

definition trim :: "(char \<Rightarrow> bool) \<Rightarrow> string \<Rightarrow> string" where
  "trim blank s = rev (dropWhile blank (rev (dropWhile blank s)))"

definition no_cache :: "string \<Rightarrow> bool" where
  "no_cache cc = list_ex (\<lambda>piece. trim is_space piece = ''no-cache'') (split_commas cc)"

definition parseTokenList :: "string \<Rightarrow> string list" where
  "parseTokenList str = map (trim (\<lambda>c. c = CHR '' '')) (split_commas str)"

definition etag_matches :: "string \<Rightarrow> string \<Rightarrow> bool" where
  "etag_matches tag str =
     list_ex (\<lambda>m. m = tag \<or> m = ''W/'' @ tag \<or> ''W/'' @ m = tag) (parseTokenList str)"

definition fresh :: "express \<Rightarrow> request \<Rightarrow> string \<Rightarrow> bool" where
  "fresh ex req tag =
     (if \<not> truthy (if_modified_since req) \<and> \<not> truthy (if_none_match req) then False
      else if truthy (cache_control_header req) \<and> no_cache (header_text (cache_control_header req))
      then False
      else
        (case ex of
           Express4 \<Rightarrow>
             (if truthy (if_none_match req) \<and> if_none_match req \<noteq> Some ''*''
                 \<and> (tag = [] \<or> \<not> etag_matches tag (header_text (if_none_match req)))
              then False
              else \<not> truthy (if_modified_since req))
         | Express5 \<Rightarrow>
             (if truthy (if_none_match req)
              then if_none_match req = Some ''*''
                   \<or> (tag \<noteq> [] \<and> etag_matches tag (header_text (if_none_match req)))
              else False)))"

text \<open>
  A handler: \<open>limited\<close> says that one of the rate limiters in front of it has used up
  the caller's quota and answers 429 itself; \<open>query\<close> reads the payload from the tables;
  \<open>t_get\<close>, \<open>t_set\<close> and \<open>t_set'\<close> are the clock readings of \<^verbatim>\<open>cache.get\<close> and
  \<^verbatim>\<open>cache.set\<close>. \<open>token_matches\<close> is the test
  \<^verbatim>\<open>clientVersion && parseInt(clientVersion) === currentVersion\<close>. The payloads are
  arrays and objects, which are truthy, so the test \<^verbatim>\<open>!raffles\<close> on the result of
  \<^verbatim>\<open>cache.get\<close> is the test for a miss. The handlers have no \<^verbatim>\<open>try/catch\<close>: an
  exception of the version query leaves them. The body is the payload before
  \<^verbatim>\<open>compression\<close> encodes it.
\<close>

record 'p response =
  status :: nat
  etag :: "string option"
  cache_control :: "string option"
  body :: "'p option"

definition not_modified :: "'p response" where
  "not_modified = \<lparr>status = 304, etag = None, cache_control = None, body = None\<rparr>"

definition too_many_requests :: "'p response" where
  "too_many_requests = \<lparr>status = 429, etag = None, cache_control = None, body = None\<rparr>"

definition token_matches :: "string option \<Rightarrow> int \<Rightarrow> bool" where
  "token_matches clientVersion currentVersion =
     (case clientVersion of
        None \<Rightarrow> False
      | Some tok \<Rightarrow> tok \<noteq> [] \<and> parseInt tok = Whole currentVersion)"

definition res_json :: "express \<Rightarrow> request \<Rightarrow> string \<Rightarrow> string \<Rightarrow> 'p \<Rightarrow> 'p response" where
  "res_json ex req tag cc payload =
     (if fresh ex req tag
      then \<lparr>status = 304, etag = Some tag, cache_control = Some cc, body = None\<rparr>
      else \<lparr>status = 200, etag = Some tag, cache_control = Some cc,
            body = (case http_method req of GET \<Rightarrow> Some payload | HEAD \<Rightarrow> None)\<rparr>)"

definition conditional_get ::
  "express \<Rightarrow> string \<Rightarrow> string \<Rightarrow> ('d \<Rightarrow> 'p) \<Rightarrow> bool \<Rightarrow> request \<Rightarrow> nat \<Rightarrow> nat \<Rightarrow> nat
     \<Rightarrow> ('d, 'p) server \<Rightarrow> 'p response outcome \<times> ('d, 'p) server" where
  "conditional_get ex key max_age query limited req t_get t_set t_set' s =
     (if limited then (Returned too_many_requests, s)
      else
        (case getVersion_get key (database s) of
           Threw \<Rightarrow> (Threw, s)
         | Returned row \<Rightarrow>
             (let currentVersion = version_or_zero row in
              if token_matches (if_none_match req) currentVersion then (Returned not_modified, s)
              else
                (case cache_get key t_get (data_cache s) of
                   (Some payload, c) \<Rightarrow>
                     (Returned (res_json ex req (Number_toString currentVersion) max_age payload),
                      s\<lparr>data_cache := c\<rparr>)
                 | (None, c) \<Rightarrow>
                     (let payload = query (content (tables (database s))) in
                      (Returned (res_json ex req (Number_toString currentVersion) max_age payload),
                       s\<lparr>data_cache :=
                           cache_set key payload currentVersion t_set t_set' c\<rparr>))))))"

definition get_raffles ::
  "express \<Rightarrow> ('d \<Rightarrow> 'p) \<Rightarrow> bool \<Rightarrow> request \<Rightarrow> nat \<Rightarrow> nat \<Rightarrow> nat \<Rightarrow> ('d, 'p) server
     \<Rightarrow> 'p response outcome \<times> ('d, 'p) server" where
  "get_raffles ex getAllRaffles =
     conditional_get ex ''raffles'' ''private, max-age=5'' getAllRaffles"

definition get_rules ::
  "express \<Rightarrow> ('d \<Rightarrow> 'p) \<Rightarrow> bool \<Rightarrow> request \<Rightarrow> nat \<Rightarrow> nat \<Rightarrow> nat \<Rightarrow> ('d, 'p) server
     \<Rightarrow> 'p response outcome \<times> ('d, 'p) server" where
  "get_rules ex getRules = conditional_get ex ''rules'' ''private, max-age=60'' getRules"

definition get_sponsors ::
  "express \<Rightarrow> ('d \<Rightarrow> 'p) \<Rightarrow> bool \<Rightarrow> request \<Rightarrow> nat \<Rightarrow> nat \<Rightarrow> nat \<Rightarrow> ('d, 'p) server
     \<Rightarrow> 'p response outcome \<times> ('d, 'p) server" where
  "get_sponsors ex getAllSponsors =
     conditional_get ex ''sponsors'' ''private, max-age=60'' getAllSponsors"

text \<open>The three read routes, their domains and cache lifetimes, and the router.\<close>

datatype read = GetRaffles | GetRules | GetSponsors

fun read_domain :: "read \<Rightarrow> string" where
  "read_domain GetRaffles = ''raffles''"
| "read_domain GetRules = ''rules''"
| "read_domain GetSponsors = ''sponsors''"

fun max_age :: "read \<Rightarrow> string" where
  "max_age GetRaffles = ''private, max-age=5''"
| "max_age GetRules = ''private, max-age=60''"
| "max_age GetSponsors = ''private, max-age=60''"

fun serve ::
  "express \<Rightarrow> read \<Rightarrow> ('d \<Rightarrow> 'p) \<Rightarrow> bool \<Rightarrow> request \<Rightarrow> nat \<Rightarrow> nat \<Rightarrow> nat \<Rightarrow> ('d, 'p) server
     \<Rightarrow> 'p response outcome \<times> ('d, 'p) server" where
  "serve ex GetRaffles query = get_raffles ex query"
| "serve ex GetRules query = get_rules ex query"
| "serve ex GetSponsors query = get_sponsors ex query"

text \<open>
  Observations of a read: the payload it materializes (the cached one, or the one read
  from the tables), the cache it leaves behind when it does, and the version the handler
  reads. \<open>server_started\<close> is the server after \<^verbatim>\<open>startServer\<close> on a new database.
\<close>

definition cached_or_fresh :: "string \<Rightarrow> ('d \<Rightarrow> 'p) \<Rightarrow> nat \<Rightarrow> ('d, 'p) server \<Rightarrow> 'p" where
  "cached_or_fresh key query t_get s =
     (case fst (cache_get key t_get (data_cache s)) of
        Some payload \<Rightarrow> payload
      | None \<Rightarrow> query (content (tables (database s))))"

definition current_version :: "('d, 'p) server \<Rightarrow> string \<Rightarrow> int" where
  "current_version s key =
     version_or_zero (map_option to_double (stored_version (database s) key))"

definition materialized ::
  "string \<Rightarrow> ('d \<Rightarrow> 'p) \<Rightarrow> nat \<Rightarrow> nat \<Rightarrow> nat \<Rightarrow> ('d, 'p) server \<Rightarrow> ('d, 'p) server" where
  "materialized key query t_get t_set t_set' s =
     (case cache_get key t_get (data_cache s) of
        (Some payload, c) \<Rightarrow> s\<lparr>data_cache := c\<rparr>
      | (None, c) \<Rightarrow>
          s\<lparr>data_cache := cache_set key (query (content (tables (database s))))
                             (current_version s key) t_set t_set' c\<rparr>)"

text \<open>
  Two relations between the server before and after a part of a handler. \<open>scheduled k\<close>:
  on the open database, \<open>k\<close> saves were scheduled, recorded in the trace and armed as
  timeouts, and the version table, the clock, the cache and the hub are as before.
  \<open>tail_issued d\<close>: the cache entry of \<open>d\<close> was invalidated, then the version of
  \<open>d\<close> incremented, which scheduled a save, then the update broadcast with the version
  read after the increment; the save is armed for 1000 ms after the clock.
\<close>

definition scheduled :: "nat \<Rightarrow> ('d, 'p) server \<Rightarrow> ('d, 'p) server \<Rightarrow> bool" where
  "scheduled k s s' =
     (db_open (database s) \<and> db_open (database s')
      \<and> trace s' = trace s @ replicate k ScheduleSave
      \<and> next_handle (database s') = next_handle (database s) + k
      \<and> clock (database s') = clock (database s)
      \<and> data_versions (tables (database s')) = data_versions (tables (database s))
      \<and> data_cache s' = data_cache s
      \<and> sse s' = sse s)"

definition tail_issued :: "string \<Rightarrow> ('d, 'p) server \<Rightarrow> ('d, 'p) server \<Rightarrow> bool" where
  "tail_issued d s s' =
     (db_open (database s')
      \<and> trace s' = trace s
            @ [InvalidateCache d, IncrementVersion d, ScheduleSave,
               Broadcast ''update'' (update_data d (current_version s' d))]
      \<and> cache (data_cache s') d = None
      \<and> stored_version (database s') d
            = map_option sqlite_plus_one (stored_version (database s) d)
      \<and> sse s' = broadcast ''update'' (update_data d (current_version s' d)) (sse s)
      \<and> next_handle (database s') = Suc (next_handle (database s))
      \<and> clock (database s') = clock (database s)
      \<and> save_armed (database s') (clock (database s) + 1000))"

definition server_started :: "'d \<Rightarrow> string \<Rightarrow> (nat \<Rightarrow> channel) \<Rightarrow> ('d, 'p) server" where
  "server_started blank at heap =
     \<lparr>database = fresh_database blank at, data_cache = new_DataCache,
      sse = new_SSEManager heap, trace = []\<rparr>"

section \<open>Concrete states used as test inputs\<close>

definition two_clients :: SSEManager where
  "two_clients =
     \<lparr>clients = [1, 2], maxConnections = 2000, heartbeatInterval = True,
      channels = (\<lambda>c. \<lparr>head_sent = None, written = [], write_calls = [],
                        write_throws = (c = 1), listeners = []\<rparr>)\<rparr>"

definition fresh_channel :: channel where
  "fresh_channel =
     \<lparr>head_sent = None, written = [], write_calls = [], write_throws = False, listeners = []\<rparr>"

definition small_hub :: SSEManager where
  "small_hub = (new_SSEManager (\<lambda>c. fresh_channel))\<lparr>maxConnections := 2\<rparr>"

definition broken_hub :: SSEManager where
  "broken_hub = new_SSEManager (\<lambda>c. fresh_channel\<lparr>write_throws := True\<rparr>)"

definition empty_tables :: "unit tables" where
  "empty_tables = \<lparr>data_versions = Map.empty, content = ()\<rparr>"

definition one_request :: "unit event list" where
  "one_request = [InitDb empty_tables ''2024-01-01'', SaveDatabase]"

definition two_requests :: "unit event list" where
  "two_requests = [InitDb empty_tables ''2024-01-01'', SaveDatabase, SaveDatabase]"

definition settled_start :: "unit Database" where
  "settled_start = write_settles (advance 1000 (fresh_database () ''t0''))"

definition busy_day :: "unit event list" where
  "busy_day =
     [BumpVersion ''raffles'' ''t1'', TimePasses 1500, WriteSettles,
      BumpVersion ''rules'' ''t2'', BumpVersion ''raffles'' ''t3'', SaveDatabase]"

text \<open>
  A server whose content is the list of the raffle ids, with one connected client;
  \<open>insert_row i\<close> inserts the id \<open>i\<close> and is rejected when the id exists (the primary
  key). \<open>plain_get\<close> is a \<^verbatim>\<open>GET\<close> request without conditional headers.
\<close>

definition insert_row :: "nat \<Rightarrow> nat list statement" where
  "insert_row i rows = (if i \<in> set rows then None else Some (rows @ [i], 1))"

definition one_listener :: SSEManager where
  "one_listener = snd (addClient 1 (new_SSEManager (\<lambda>c. fresh_channel)))"

definition srv0 :: "(nat list, nat list) server" where
  "srv0 = (server_started [] ''t0'' (\<lambda>c. fresh_channel))\<lparr>sse := one_listener\<rparr>"

definition srv1 :: "(nat list, nat list) server" where
  "srv1 = snd (post_raffles Proceeds (insert_row 7) ''t1'' srv0)"

definition plain_get :: request where
  "plain_get =
     \<lparr>http_method = GET, if_none_match = None, if_modified_since = None,
      cache_control_header = None\<rparr>"

definition with_token :: "string \<Rightarrow> request" where
  "with_token tok = plain_get\<lparr>if_none_match := Some tok\<rparr>"

section \<open>Cache: lemmas\<close>

lemma ttl_for_own:
  "TTL key = Some n \<Longrightarrow> ttl_for key = Millis n"
  by (auto simp: ttl_for_def TTL_lookup_def TTL_def split: if_splits)

lemma ttl_for_plain:
  "TTL key = None \<Longrightarrow> key \<notin> set Object_prototype_keys \<Longrightarrow> ttl_for key = Millis 5000"
  by (simp add: ttl_for_def TTL_lookup_def)

lemma ttl_for_inherited:
  "key \<in> set Object_prototype_keys \<Longrightarrow> ttl_for key = NonNumeric"
  by (auto simp: ttl_for_def TTL_lookup_def TTL_def Object_prototype_keys_def)

lemma cache_step_absent:
  "\<not> touches_set k x \<Longrightarrow> cache c k = None \<Longrightarrow> cache (cache_step x c) k = None"
  by (cases x)
     (auto simp: cache_get_def cache_set_def invalidate_def cleanup_def split: option.splits)

lemma cache_run_absent:
  "no_set_on k xs \<Longrightarrow> cache c k = None \<Longrightarrow> cache (cache_run xs c) k = None"
proof (induction xs arbitrary: c)
  case Nil
  then show ?case by simp
next
  case (Cons x xs)
  from Cons.prems have "cache (cache_step x c) k = None"
    by (simp add: cache_step_absent)
  with Cons show ?case by simp
qed

text \<open>
  For a key that is not a name inherited from \<^verbatim>\<open>Object.prototype\<close>, with \<open>T\<close> its TTL
  (the table's, or 5000), an entry set at \<open>t0\<close> is read back up to \<open>t0 + T\<close> and is
  absent, and removed, afterwards.
\<close>

lemma cache_ttl_ordinary_key:
  assumes "key \<notin> set Object_prototype_keys"
    and "T = (case TTL key of Some n \<Rightarrow> n | None \<Rightarrow> 5000)"
  shows "t \<le> t0 + T \<Longrightarrow>
           cache_get key t (cache_set key p v t0 t0' c) = (Some p, cache_set key p v t0 t0' c)"
    and "t0 + T < t \<Longrightarrow>
           fst (cache_get key t (cache_set key p v t0 t0' c)) = None \<and>
           cache (snd (cache_get key t (cache_set key p v t0 t0' c))) key = None"
proof -
  have ttl: "ttl_for key = Millis T"
  proof (cases "TTL key")
    case None
    with assms show ?thesis by (simp add: ttl_for_plain)
  next
    case (Some n)
    with assms show ?thesis by (simp add: ttl_for_own)
  qed
  show "t \<le> t0 + T \<Longrightarrow>
           cache_get key t (cache_set key p v t0 t0' c) = (Some p, cache_set key p v t0 t0' c)"
    by (simp add: cache_get_def cache_set_def ttl plus_ttl_def past_def)
  show "t0 + T < t \<Longrightarrow>
           fst (cache_get key t (cache_set key p v t0 t0' c)) = None \<and>
           cache (snd (cache_get key t (cache_set key p v t0 t0' c))) key = None"
    by (simp add: cache_get_def cache_set_def ttl plus_ttl_def past_def)
qed

section \<open>Hub: lemmas\<close>

lemma bit_length_bound: "n < 2 ^ k \<Longrightarrow> bit_length n \<le> k"
proof (induction k arbitrary: n)
  case 0
  then show ?case by (simp add: bit_length.simps [of 0])
next
  case (Suc k)
  show ?case
  proof (cases "n = 0")
    case True
    then show ?thesis by (simp add: bit_length.simps [of 0])
  next
    case False
    from Suc.prems have "n div 2 < 2 ^ k" by simp
    then have "bit_length (n div 2) \<le> k" by (rule Suc.IH)
    with False show ?thesis by (simp add: bit_length.simps [of n])
  qed
qed

lemma round_to_53_bits_small: "n \<le> 2 ^ 53 \<Longrightarrow> round_to_53_bits n = n"
proof (cases "n = 2 ^ 53")
  case True
  have "bit_length (2 ^ 53) = 54"
    by (simp add: bit_length.simps)
  then show ?thesis
    by (simp add: True round_to_53_bits_def Let_def)
next
  case False
  assume "n \<le> 2 ^ 53"
  with False have "n < 2 ^ 53" by simp
  then have "bit_length n \<le> 53" by (rule bit_length_bound)
  then show ?thesis
    by (simp add: round_to_53_bits_def Let_def)
qed

lemma to_double_small: "\<bar>v\<bar> \<le> 2 ^ 53 \<Longrightarrow> to_double v = v"
proof -
  assume a: "\<bar>v\<bar> \<le> 2 ^ 53"
  then have "nat (- v) \<le> 2 ^ 53" and "nat v \<le> 2 ^ 53"
    by (simp_all add: nat_le_iff)
  then show ?thesis
    by (simp add: to_double_def round_to_53_bits_small)
qed

lemma Number_toString_small:
  "0 \<le> v \<Longrightarrow> v \<le> 2 ^ 53 \<Longrightarrow> Number_toString v = digits_of_nat (nat v)"
  by (simp add: Number_toString_def magnitude_toString_def nat_le_iff)


lemma ch_write_throws [simp]: "write_throws (snd (ch_write msg ch)) = write_throws ch"
  by (simp add: ch_write_def Let_def)

lemma ch_write_calls [simp]: "write_calls (snd (ch_write msg ch)) = write_calls ch @ [msg]"
  by (simp add: ch_write_def Let_def)

lemma ch_write_written [simp]:
  "written (snd (ch_write msg ch)) = (if write_throws ch then written ch else written ch @ [msg])"
  by (simp add: ch_write_def Let_def)

lemma ch_write_fst [simp]:
  "fst (ch_write msg ch) = (if write_throws ch then Threw else Returned ())"
  by (simp add: ch_write_def Let_def)

lemma write_each_eq:
  "distinct cs \<Longrightarrow>
   write_each msg cs heap failed =
     (\<lambda>c. if c \<in> set cs then snd (ch_write msg (heap c)) else heap c,
      failed @ filter (\<lambda>c. write_throws (heap c)) cs)"
proof (induction cs arbitrary: heap failed)
  case Nil
  then show ?case by simp
next
  case (Cons c cs)
  obtain r ch where w: "ch_write msg (heap c) = (r, ch)"
    by (cases "ch_write msg (heap c)")
  from w have r: "r = (if write_throws (heap c) then Threw else Returned ())"
    and ch: "ch = snd (ch_write msg (heap c))"
    using ch_write_fst [of msg "heap c"] by simp_all
  from Cons.prems have notin: "c \<notin> set cs" and d: "distinct cs" by simp_all
  have flt: "filter (\<lambda>x. write_throws ((heap(c := ch)) x)) cs = filter (\<lambda>x. write_throws (heap x)) cs"
    using notin by (intro filter_cong) auto
  have heap_eq: "(\<lambda>x. if x \<in> set cs then snd (ch_write msg ((heap(c := ch)) x)) else (heap(c := ch)) x)
      = (\<lambda>x. if x \<in> set (c # cs) then snd (ch_write msg (heap x)) else heap x)"
    using notin ch by (intro ext) auto
  have IH: "write_each msg cs (heap(c := ch)) F =
      (\<lambda>x. if x \<in> set (c # cs) then snd (ch_write msg (heap x)) else heap x,
       F @ filter (\<lambda>x. write_throws (heap x)) cs)" for F
    using Cons.IH [OF d, of "heap(c := ch)" F] by (simp only: flt heap_eq)
  show ?case
  proof (cases "write_throws (heap c)")
    case True
    with w r have "write_each msg (c # cs) heap failed = write_each msg cs (heap(c := ch)) (failed @ [c])"
      by simp
    with True show ?thesis by (simp only: IH) simp
  next
    case False
    with w r have "write_each msg (c # cs) heap failed = write_each msg cs (heap(c := ch)) failed"
      by simp
    with False show ?thesis by (simp only: IH) simp
  qed
qed

lemma fold_set_delete:
  "fold set_delete fs cs = filter (\<lambda>c. c \<notin> set fs) cs"
proof (induction fs arbitrary: cs)
  case Nil
  then show ?case by simp
next
  case (Cons f fs)
  have "set_delete f cs = filter (\<lambda>c. c \<noteq> f) cs"
    by (simp add: set_delete_def removeAll_filter_not_eq) (metis)
  with Cons show ?case
    by (auto intro: filter_cong)
qed


lemma broadcast_eq:
  "distinct (clients h) \<Longrightarrow>
   broadcast ev dat h =
     h\<lparr>clients := filter (\<lambda>c. \<not> write_throws (channels h c)) (clients h),
       channels := (\<lambda>c. if c \<in> set (clients h)
                          then snd (ch_write (event_frame ev dat) (channels h c))
                          else channels h c)\<rparr>"
  by (simp add: broadcast_def write_each_eq fold_set_delete cong: filter_cong)

lemma addClient_rejects:
  "maxConnections h \<le> length (clients h) \<Longrightarrow> addClient res h = (Returned False, h)"
  by (simp add: addClient_def)

lemma addClient_accepts:
  assumes "length (clients h) < maxConnections h" and "head_sent (channels h res) = None"
    and "\<not> write_throws (channels h res)"
  shows "addClient res h =
     (Returned True,
      h\<lparr>clients := set_add res (clients h),
        channels := (channels h)
          (res := (channels h res)
             \<lparr>head_sent := Some (200, sse_headers),
              write_calls := write_calls (channels h res) @ [heartbeat_frame],
              written := written (channels h res) @ [heartbeat_frame],
              listeners := listeners (channels h res) @ [''close'', ''error'']\<rparr>)\<rparr>)"
  using assms by (simp add: addClient_def ch_write_def writeHead_def Let_def)

lemma addClient_throws:
  assumes "length (clients h) < maxConnections h"
    and "head_sent (channels h res) \<noteq> None \<or> write_throws (channels h res)"
  shows "fst (addClient res h) = Threw \<and> clients (snd (addClient res h)) = clients h
    \<and> listeners (channels (snd (addClient res h)) res) = listeners (channels h res)"
  using assms
  by (auto simp: addClient_def ch_write_def writeHead_def Let_def split: option.splits)

lemma set_delete_notin: "res \<notin> set (set_delete res cs)"
  by (simp add: set_delete_def)

lemma admit_all_fresh:
  "distinct rs \<Longrightarrow> set rs \<inter> set (clients h) = {} \<Longrightarrow>
   length (clients h) + length rs \<le> maxConnections h \<Longrightarrow>
   (\<forall>r \<in> set rs. head_sent (channels h r) = None \<and> \<not> write_throws (channels h r)) \<Longrightarrow>
   fst (admit_all rs h) = replicate (length rs) (Returned True) \<and>
   clients (snd (admit_all rs h)) = clients h @ rs \<and>
   maxConnections (snd (admit_all rs h)) = maxConnections h"
proof (induction rs arbitrary: h)
  case Nil
  then show ?case by simp
next
  case (Cons r rs)
  let ?h' = "snd (addClient r h)"
  from Cons.prems have lt: "length (clients h) < maxConnections h"
    and hd: "head_sent (channels h r) = None"
    and ok: "\<not> write_throws (channels h r)" and fresh: "r \<notin> set (clients h)"
    by auto
  note acc = addClient_accepts [OF lt hd ok]
  have cl: "clients ?h' = clients h @ [r]" and mx: "maxConnections ?h' = maxConnections h"
    using fresh by (simp_all add: acc set_add_def)
  have thr: "\<forall>x \<in> set rs. head_sent (channels ?h' x) = None \<and> \<not> write_throws (channels ?h' x)"
    using Cons.prems by (auto simp: acc)
  have ih: "fst (admit_all rs ?h') = replicate (length rs) (Returned True) \<and>
        clients (snd (admit_all rs ?h')) = clients ?h' @ rs \<and>
        maxConnections (snd (admit_all rs ?h')) = maxConnections ?h'"
    using Cons.prems thr by (intro Cons.IH) (auto simp: cl mx)
  have step: "admit_all (r # rs) h
      = (Returned True # fst (admit_all rs ?h'), snd (admit_all rs ?h'))"
    by (simp add: acc split: prod.splits)
  show ?case
    unfolding step using ih cl mx by simp
qed

section \<open>Database module: lemmas\<close>

text \<open>Every event keeps the count of writes in progress tied to \<^verbatim>\<open>isWriting\<close>.\<close>

lemma sf_scheduleSave [simp]:
  "isWriting (scheduleSave s) = isWriting s" "writes_active (scheduleSave s) = writes_active s"
  by (simp_all add: scheduleSave_def clearTimeout_def Let_def split: option.splits)

lemma run_flags [simp]:
  "isWriting (snd (run sql s)) = isWriting s" "writes_active (snd (run sql s)) = writes_active s"
  by (simp_all add: run_def split: option.splits prod.splits)

lemma bumpVersion_snd: "snd (bumpVersion key at s) = snd (run (incrementVersion_sql at key) s)"
  by (simp add: bumpVersion_def split: prod.splits outcome.splits)

lemma sf_saveDatabase: "single_flight s \<Longrightarrow> single_flight (saveDatabase s)"
  by (simp add: single_flight_def saveDatabase_def Let_def)

lemma sf_funpow: "single_flight s \<Longrightarrow> single_flight ((saveDatabase ^^ n) s)"
  by (induction n) (simp_all add: sf_saveDatabase)

lemma sf_step: "single_flight s \<Longrightarrow> single_flight (step e s)"
proof (cases e)
  case (InitDb loaded at)
  assume "single_flight s"
  then show ?thesis
    by (simp add: InitDb initDb_def single_flight_def)
next
  case (Statement f)
  assume "single_flight s"
  then show ?thesis
    by (simp add: Statement single_flight_def)
next
  case (BumpVersion key at)
  assume "single_flight s"
  then show ?thesis
    by (simp add: BumpVersion bumpVersion_snd single_flight_def)
next
  case (TimePasses t)
  assume "single_flight s"
  then have "single_flight (s\<lparr>clock := max (clock s) t,
      timers := filter (\<lambda>(h, d). \<not> d \<le> max (clock s) t) (timers s)\<rparr>)"
    by (simp add: single_flight_def)
  then show ?thesis
    by (simp add: TimePasses advance_def Let_def sf_funpow)
next
  case WriteSettles
  assume "single_flight s"
  then show ?thesis
    by (auto simp: WriteSettles write_settles_def single_flight_def Let_def split: if_splits)
next
  case ImmediateRuns
  assume "single_flight s"
  then have sf: "single_flight s" and "single_flight (s\<lparr>immediates := immediates s - 1\<rparr>)"
    by (simp_all add: single_flight_def)
  then show ?thesis
    by (simp add: ImmediateRuns immediate_runs_def sf_saveDatabase)
next
  case SaveDatabase
  assume "single_flight s"
  then show ?thesis
    by (simp add: SaveDatabase sf_saveDatabase)
next
  case CloseDb
  assume sf: "single_flight s"
  have "single_flight (case saveTimeout s of None \<Rightarrow> s | Some h \<Rightarrow> saveDatabase (clearTimeout h s))"
  proof (cases "saveTimeout s")
    case None
    with sf show ?thesis by simp
  next
    case (Some h)
    from sf have "single_flight (clearTimeout h s)"
      by (simp add: single_flight_def clearTimeout_def)
    then show ?thesis by (simp add: Some sf_saveDatabase)
  qed
  then show ?thesis
    by (simp add: CloseDb closeDb_def Let_def single_flight_def)
qed

lemma sf_exec: "single_flight s \<Longrightarrow> single_flight (exec es s)"
  by (induction es arbitrary: s) (simp_all add: sf_step)

lemma sf_module_loaded: "single_flight (module_loaded blank)"
  by (simp add: single_flight_def module_loaded_def)

text \<open>The debounce timer: at most one timeout is armed, the one \<^verbatim>\<open>saveTimeout\<close> names.\<close>

lemma scheduleSave_idle:
  assumes "timers s = []"
  shows "scheduleSave s
      = s\<lparr>timers := [(next_handle s, clock s + 1000)], saveTimeout := Some (next_handle s),
          next_handle := Suc (next_handle s)\<rparr>"
  using assms
  by (cases "saveTimeout s") (simp_all add: scheduleSave_def clearTimeout_def Let_def)

lemma scheduleSave_armed:
  assumes "armed s due"
  shows "scheduleSave s
      = s\<lparr>timers := [(next_handle s, clock s + 1000)], saveTimeout := Some (next_handle s),
          next_handle := Suc (next_handle s)\<rparr>"
  using assms
  by (auto simp: armed_def scheduleSave_def clearTimeout_def Let_def)

lemma advance_idle:
  assumes "timers s = []"
  shows "advance t s = s\<lparr>clock := max (clock s) t\<rparr>"
  using assms by (simp add: advance_def Let_def)

lemma advance_not_due:
  assumes "armed s due" and "clock s < due" and "t < due"
  shows "advance t s = s\<lparr>clock := max (clock s) t\<rparr>"
  using assms by (auto simp: armed_def advance_def Let_def)

lemma advance_due:
  assumes "armed s due" and "due \<le> t"
  shows "advance t s = saveDatabase (s\<lparr>clock := max (clock s) t, timers := []\<rparr>)"
  using assms by (auto simp: armed_def advance_def Let_def)

lemma saveDatabase_timer_fields [simp]:
  "timers (saveDatabase s) = timers s" "clock (saveDatabase s) = clock s"
  "saveTimeout (saveDatabase s) = saveTimeout s" "save_calls (saveDatabase s) = Suc (save_calls s)"
  by (simp_all add: saveDatabase_def Let_def)

text \<open>A burst: every call re-arms the one timer and nothing fires.\<close>

lemma burst_state:
  "timers s = [(h, t + 1000)] \<Longrightarrow> saveTimeout s = Some h \<Longrightarrow> clock s = t \<Longrightarrow>
   within_window t ts \<Longrightarrow>
   \<exists>h' n. mutations ts s
     = s\<lparr>clock := last (t # ts), timers := [(h', last (t # ts) + 1000)],
         saveTimeout := Some h', next_handle := n\<rparr>"
proof (induction ts arbitrary: s h t)
  case Nil
  then have "s = s\<lparr>clock := t, timers := [(h, t + 1000)], saveTimeout := Some h,
      next_handle := next_handle s\<rparr>"
    by simp
  then show ?case
    by (metis last.simps mutations.simps(1))
next
  case (Cons u us)
  from Cons.prems have u: "t \<le> u" "u < t + 1000" and w: "within_window u us"
    by simp_all
  have arm: "armed s (t + 1000)"
    using Cons.prems by (simp add: armed_def)
  have adv: "advance u s = s\<lparr>clock := u\<rparr>"
    using advance_not_due [OF arm, of u] Cons.prems u by (simp add: max_def)
  have "armed (s\<lparr>clock := u\<rparr>) (t + 1000)"
    using arm by (simp add: armed_def)
  from scheduleSave_armed [OF this]
  obtain h1 n1 where s1: "scheduleSave (s\<lparr>clock := u\<rparr>)
      = s\<lparr>clock := u, timers := [(h1, u + 1000)], saveTimeout := Some h1, next_handle := n1\<rparr>"
    by simp
  let ?s1 = "s\<lparr>clock := u, timers := [(h1, u + 1000)], saveTimeout := Some h1, next_handle := n1\<rparr>"
  have "\<exists>h' n. mutations us ?s1
     = ?s1\<lparr>clock := last (u # us), timers := [(h', last (u # us) + 1000)],
         saveTimeout := Some h', next_handle := n\<rparr>"
    by (rule Cons.IH [of ?s1 h1 u]) (simp_all add: w)
  then obtain h' n where "mutations us ?s1
     = s\<lparr>clock := last (u # us), timers := [(h', last (u # us) + 1000)],
         saveTimeout := Some h', next_handle := n\<rparr>"
    by auto
  then show ?case
    by (auto simp: adv s1)
qed

lemma burst_first:
  assumes "timers s = []" and "clock s \<le> t" and "within_window t ts"
  shows "\<exists>h' n. mutations (t # ts) s
     = s\<lparr>clock := last (t # ts), timers := [(h', last (t # ts) + 1000)],
         saveTimeout := Some h', next_handle := n\<rparr>"
proof -
  have adv: "advance t s = s\<lparr>clock := t\<rparr>"
    using assms by (simp add: advance_idle max_def)
  have "timers (s\<lparr>clock := t\<rparr>) = []"
    using assms by simp
  from scheduleSave_idle [OF this]
  obtain h1 n1 where s1: "scheduleSave (s\<lparr>clock := t\<rparr>)
      = s\<lparr>clock := t, timers := [(h1, t + 1000)], saveTimeout := Some h1, next_handle := n1\<rparr>"
    by simp
  let ?s1 = "s\<lparr>clock := t, timers := [(h1, t + 1000)], saveTimeout := Some h1, next_handle := n1\<rparr>"
  have "\<exists>h' n. mutations ts ?s1
     = ?s1\<lparr>clock := last (t # ts), timers := [(h', last (t # ts) + 1000)],
         saveTimeout := Some h', next_handle := n\<rparr>"
    by (rule burst_state [of ?s1 h1 t]) (simp_all add: assms)
  then obtain h' n where "mutations ts ?s1
     = s\<lparr>clock := last (t # ts), timers := [(h', last (t # ts) + 1000)],
         saveTimeout := Some h', next_handle := n\<rparr>"
    by auto
  then show ?thesis
    by (auto simp: adv s1)
qed

text \<open>Calls more than a window apart: the armed timer fires before each next call.\<close>

lemma spaced_state:
  "timers s = [(h, t + 1000)] \<Longrightarrow> saveTimeout s = Some h \<Longrightarrow> clock s = t \<Longrightarrow>
   spaced t ts \<Longrightarrow>
   (\<exists>h'. timers (mutations ts s) = [(h', last (t # ts) + 1000)]
        \<and> saveTimeout (mutations ts s) = Some h')
   \<and> clock (mutations ts s) = last (t # ts)
   \<and> save_calls (mutations ts s) = save_calls s + length ts"
proof (induction ts arbitrary: s h t)
  case Nil
  then show ?case by simp
next
  case (Cons u us)
  from Cons.prems have u: "t + 1000 < u" and w: "spaced u us"
    by simp_all
  have arm: "armed s (t + 1000)"
    using Cons.prems by (simp add: armed_def)
  have adv: "advance u s = saveDatabase (s\<lparr>clock := u, timers := []\<rparr>)"
    using advance_due [OF arm, of u] Cons.prems u by (simp add: max_def)
  let ?s0 = "saveDatabase (s\<lparr>clock := u, timers := []\<rparr>)"
  have idle: "timers ?s0 = []" and ck: "clock ?s0 = u"
    and calls: "save_calls ?s0 = Suc (save_calls s)"
    by simp_all
  from scheduleSave_idle [OF idle]
  obtain h1 n1 where s1: "scheduleSave ?s0
      = ?s0\<lparr>timers := [(h1, u + 1000)], saveTimeout := Some h1, next_handle := n1\<rparr>"
    by (simp add: ck)
  let ?s1 = "?s0\<lparr>timers := [(h1, u + 1000)], saveTimeout := Some h1, next_handle := n1\<rparr>"
  have "(\<exists>h'. timers (mutations us ?s1) = [(h', last (u # us) + 1000)]
        \<and> saveTimeout (mutations us ?s1) = Some h')
   \<and> clock (mutations us ?s1) = last (u # us)
   \<and> save_calls (mutations us ?s1) = save_calls ?s1 + length us"
    by (rule Cons.IH [of ?s1 h1 u]) (simp_all add: w)
  then show ?case
    by (simp add: adv s1)
qed

lemma spaced_first:
  assumes "timers s = []" and "clock s \<le> t" and "spaced t ts"
  shows "(\<exists>h'. timers (mutations (t # ts) s) = [(h', last (t # ts) + 1000)]
        \<and> saveTimeout (mutations (t # ts) s) = Some h')
   \<and> clock (mutations (t # ts) s) = last (t # ts)
   \<and> save_calls (mutations (t # ts) s) = save_calls s + length ts"
proof -
  have adv: "advance t s = s\<lparr>clock := t\<rparr>"
    using assms by (simp add: advance_idle max_def)
  have "timers (s\<lparr>clock := t\<rparr>) = []"
    using assms by simp
  from scheduleSave_idle [OF this]
  obtain h1 n1 where s1: "scheduleSave (s\<lparr>clock := t\<rparr>)
      = s\<lparr>clock := t, timers := [(h1, t + 1000)], saveTimeout := Some h1, next_handle := n1\<rparr>"
    by simp
  let ?s1 = "s\<lparr>clock := t, timers := [(h1, t + 1000)], saveTimeout := Some h1, next_handle := n1\<rparr>"
  have "(\<exists>h'. timers (mutations ts ?s1) = [(h', last (t # ts) + 1000)]
        \<and> saveTimeout (mutations ts ?s1) = Some h')
   \<and> clock (mutations ts ?s1) = last (t # ts)
   \<and> save_calls (mutations ts ?s1) = save_calls ?s1 + length ts"
    by (rule spaced_state [of ?s1 h1 t]) (simp_all add: assms)
  then show ?thesis
    by (simp add: adv s1)
qed

lemma spaced_settled_state:
  "timers s = [(h, t + 1000)] \<Longrightarrow> saveTimeout s = Some h \<Longrightarrow> clock s = t \<Longrightarrow>
   idle_open s \<Longrightarrow> spaced t ts \<Longrightarrow>
   (\<exists>h'. timers (mutations_settled ts s) = [(h', last (t # ts) + 1000)]
        \<and> saveTimeout (mutations_settled ts s) = Some h')
   \<and> clock (mutations_settled ts s) = last (t # ts)
   \<and> idle_open (mutations_settled ts s)
   \<and> writes_started (mutations_settled ts s) = writes_started s + length ts"
proof (induction ts arbitrary: s h t)
  case Nil
  then show ?case by simp
next
  case (Cons u us)
  from Cons.prems have u: "t + 1000 < u" and w: "spaced u us"
    by simp_all
  have arm: "armed s (t + 1000)"
    using Cons.prems by (simp add: armed_def)
  have adv: "advance u s = saveDatabase (s\<lparr>clock := u, timers := []\<rparr>)"
    using advance_due [OF arm, of u] Cons.prems u by (simp add: max_def)
  define s0 where "s0 = write_settles (saveDatabase (s\<lparr>clock := u, timers := []\<rparr>))"
  have s0: "timers s0 = []" "clock s0 = u" "idle_open s0"
    "writes_started s0 = Suc (writes_started s)"
    using Cons.prems(4)
    by (simp_all add: s0_def idle_open_def saveDatabase_def write_settles_def Let_def)
  define s1 where "s1 = scheduleSave s0"
  have s1: "timers s1 = [(next_handle s0, u + 1000)]" "saveTimeout s1 = Some (next_handle s0)"
    "clock s1 = u" "idle_open s1" "writes_started s1 = Suc (writes_started s)"
    using s0 by (simp_all add: s1_def scheduleSave_idle idle_open_def)
  have "(\<exists>h'. timers (mutations_settled us s1) = [(h', last (u # us) + 1000)]
        \<and> saveTimeout (mutations_settled us s1) = Some h')
   \<and> clock (mutations_settled us s1) = last (u # us)
   \<and> idle_open (mutations_settled us s1)
   \<and> writes_started (mutations_settled us s1) = writes_started s1 + length us"
    using s1 w by (intro Cons.IH [of s1 "next_handle s0" u]) simp_all
  then show ?case
    by (simp add: adv s0_def [symmetric] s1_def [symmetric] s1)
qed

lemma spaced_settled_first:
  assumes "timers s = []" and "clock s \<le> t" and "idle_open s" and "spaced t ts"
  shows "(\<exists>h'. timers (mutations_settled (t # ts) s) = [(h', last (t # ts) + 1000)]
        \<and> saveTimeout (mutations_settled (t # ts) s) = Some h')
   \<and> idle_open (mutations_settled (t # ts) s)
   \<and> writes_started (mutations_settled (t # ts) s) = writes_started s + length ts"
proof -
  have adv: "advance t s = s\<lparr>clock := t\<rparr>"
    using assms by (simp add: advance_idle max_def)
  have ws: "write_settles (s\<lparr>clock := t\<rparr>) = s\<lparr>clock := t\<rparr>"
    using assms(3) by (simp add: write_settles_def idle_open_def)
  define s1 where "s1 = scheduleSave (s\<lparr>clock := t\<rparr>)"
  have s1: "timers s1 = [(next_handle s, t + 1000)]" "saveTimeout s1 = Some (next_handle s)"
    "clock s1 = t" "idle_open s1" "writes_started s1 = writes_started s"
    using assms by (simp_all add: s1_def scheduleSave_idle idle_open_def)
  have "(\<exists>h'. timers (mutations_settled ts s1) = [(h', last (t # ts) + 1000)]
        \<and> saveTimeout (mutations_settled ts s1) = Some h')
   \<and> clock (mutations_settled ts s1) = last (t # ts)
   \<and> idle_open (mutations_settled ts s1)
   \<and> writes_started (mutations_settled ts s1) = writes_started s1 + length ts"
    using s1 assms(4) by (intro spaced_settled_state [of s1 "next_handle s" t]) simp_all
  then show ?thesis
    by (simp add: adv ws s1_def [symmetric] s1)
qed

lemma spaced_settled_writes:
  assumes "timers s = []" and "clock s \<le> t" and "idle_open s" and "spaced t ts"
    and "last (t # ts) + 1000 \<le> T"
  shows "writes_started (advance T (mutations_settled (t # ts) s))
      = writes_started s + length (t # ts)"
proof -
  from spaced_settled_first [OF assms(1-4)]
  obtain h' where tm: "timers (mutations_settled (t # ts) s) = [(h', last (t # ts) + 1000)]"
    and st: "saveTimeout (mutations_settled (t # ts) s) = Some h'"
    and idle: "idle_open (mutations_settled (t # ts) s)"
    and started: "writes_started (mutations_settled (t # ts) s) = writes_started s + length ts"
    by auto
  have arm: "armed (mutations_settled (t # ts) s) (last (t # ts) + 1000)"
    using tm st by (simp add: armed_def)
  note fire = advance_due [OF arm assms(5)]
  show ?thesis
    unfolding fire using idle started
    by (simp add: saveDatabase_def idle_open_def Let_def del: mutations_settled.simps)
qed

text \<open>The version table under \<^verbatim>\<open>bumpVersion\<close> and under runs of events.\<close>

lemma scheduleSave_tables [simp]:
  "tables (scheduleSave s) = tables s" "db_open (scheduleSave s) = db_open s"
  by (simp_all add: scheduleSave_def clearTimeout_def Let_def split: option.splits)

lemma saveDatabase_tables [simp]:
  "tables (saveDatabase s) = tables s" "db_open (saveDatabase s) = db_open s"
  by (simp_all add: saveDatabase_def Let_def)

lemma funpow_saveDatabase_tables [simp]:
  "tables ((saveDatabase ^^ n) s) = tables s" "db_open ((saveDatabase ^^ n) s) = db_open s"
  by (induction n) simp_all

lemma version_or_zero_Some [simp]: "version_or_zero (Some v) = v"
  by (simp add: version_or_zero_def)

lemma bumpVersion_row:
  assumes "db_open s" and "data_versions (tables s) key = Some (v, u)"
  shows "bumpVersion key at s =
     (Returned (to_double (sqlite_plus_one v)),
      scheduleSave (s\<lparr>tables := (tables s)\<lparr>data_versions :=
         (data_versions (tables s))(key \<mapsto> (sqlite_plus_one v, at))\<rparr>\<rparr>))"
  using assms
  by (simp add: bumpVersion_def run_def incrementVersion_sql_def getVersion_get_def)

lemma bumpVersion_no_row:
  assumes "db_open s" and "data_versions (tables s) key = None"
  shows "bumpVersion key at s = (Returned 0, scheduleSave s)"
  using assms
  by (simp add: bumpVersion_def run_def incrementVersion_sql_def getVersion_get_def
      version_or_zero_def)

lemma bumpVersion_closed:
  assumes "\<not> db_open s"
  shows "bumpVersion key at s = (Threw, s)"
  using assms by (simp add: bumpVersion_def run_def)

lemma bumpVersion_versions:
  "stored_version (snd (bumpVersion key at s)) k =
     (if db_open s \<and> k = key then map_option sqlite_plus_one (stored_version s k)
      else stored_version s k)"
proof (cases "db_open s")
  case False
  then show ?thesis by (simp add: bumpVersion_closed)
next
  case True
  show ?thesis
  proof (cases "data_versions (tables s) key")
    case None
    with True show ?thesis
      by (auto simp: bumpVersion_no_row stored_version_def)
  next
    case (Some row)
    obtain v u where "row = (v, u)" by (cases row)
    with True Some show ?thesis
      by (simp add: bumpVersion_row stored_version_def)
  qed
qed

text \<open>
  While the counter and its successor have at most 53 bits, the SQL increment and the
  read-back through a double are exact.
\<close>

lemma sqlite_plus_one_exact:
  "- (2 ^ 53) \<le> v \<Longrightarrow> v + 1 \<le> 2 ^ 53 \<Longrightarrow> sqlite_plus_one v = v + 1"
  by (simp add: sqlite_plus_one_def sqlite_integer_def)

lemma read_back_exact:
  "- (2 ^ 53) \<le> v \<Longrightarrow> v + 1 \<le> 2 ^ 53 \<Longrightarrow> to_double (sqlite_plus_one v) = v + 1"
  by (simp add: sqlite_plus_one_exact to_double_small abs_le_iff)

lemma sqlite_plus_one_funpow:
  "- (2 ^ 53) \<le> v \<Longrightarrow> v + int n \<le> 2 ^ 53 \<Longrightarrow> (sqlite_plus_one ^^ n) v = v + int n"
proof (induction n)
  case 0
  then show ?case by simp
next
  case (Suc n)
  then have "(sqlite_plus_one ^^ n) v = v + int n" by simp
  moreover from Suc.prems have "sqlite_plus_one (v + int n) = v + int n + 1"
    by (intro sqlite_plus_one_exact) simp_all
  ultimately show ?case by simp
qed

lemma bump_many_row:
  "db_open s \<Longrightarrow> data_versions (tables s) key = Some (v, u) \<Longrightarrow>
   - (2 ^ 53) \<le> v \<Longrightarrow> v + int (length ats) \<le> 2 ^ 53 \<Longrightarrow>
   fst (bump_many key ats s) = map (\<lambda>i. Returned (v + 1 + int i)) [0..<length ats]
   \<and> stored_version (snd (bump_many key ats s)) key = Some (v + int (length ats))"
proof (induction ats arbitrary: s v u)
  case Nil
  then show ?case by (simp add: stored_version_def)
next
  case (Cons at ats)
  from Cons.prems have lo: "- (2 ^ 53) \<le> v" and hi: "v + 1 \<le> 2 ^ 53"
    by simp_all
  let ?s' = "scheduleSave (s\<lparr>tables := (tables s)\<lparr>data_versions :=
         (data_versions (tables s))(key \<mapsto> (v + 1, at))\<rparr>\<rparr>)"
  have td: "to_double (v + 1) = v + 1"
    using lo hi by (simp add: to_double_small abs_le_iff)
  have b: "bumpVersion key at s = (Returned (v + 1), ?s')"
    using bumpVersion_row [OF Cons.prems(1,2), of at]
    by (simp add: sqlite_plus_one_exact [OF lo hi] td)
  have ih: "fst (bump_many key ats ?s') = map (\<lambda>i. Returned (v + 1 + 1 + int i)) [0..<length ats]
   \<and> stored_version (snd (bump_many key ats ?s')) key = Some (v + 1 + int (length ats))"
    using Cons.prems by (intro Cons.IH [of ?s' "v + 1" at]) simp_all
  have m: "map (\<lambda>i. Returned (v + 1 + int i)) [0..<length (at # ats)]
      = Returned (v + 1) # map (\<lambda>i. Returned (v + 1 + 1 + int i)) [0..<length ats]"
    by (simp add: upt_rec [of 0] map_Suc_upt [symmetric] del: upt_Suc)
  obtain rs s'' where bm: "bump_many key ats ?s' = (rs, s'')"
    by (cases "bump_many key ats ?s'")
  from ih bm have rs: "rs = map (\<lambda>i. Returned (v + 1 + 1 + int i)) [0..<length ats]"
    and fin: "stored_version s'' key = Some (v + 1 + int (length ats))"
    by simp_all
  have "bump_many key (at # ats) s = (Returned (v + 1) # rs, s'')"
    by (simp add: b bm)
  then show ?case
    unfolding m by (simp add: rs fin)
qed

lemma closeDb_tables [simp]: "tables (closeDb s) = tables s"
  by (simp add: closeDb_def clearTimeout_def Let_def split: option.splits)

lemma step_versions:
  assumes "initialized s" and "db_open s" and "\<not> is_close e"
  shows "initialized (step e s) \<and> db_open (step e s)
    \<and> stored_version (step e s) d
        = (if is_bump d e then map_option sqlite_plus_one (stored_version s d)
           else stored_version s d)"
proof (cases e)
  case (InitDb loaded at)
  with assms show ?thesis by (simp add: initDb_def)
next
  case (Statement f)
  with assms show ?thesis
    by (simp add: run_def stored_version_def scheduleSave_def clearTimeout_def Let_def
        split: option.splits)
next
  case (BumpVersion key at)
  have "initialized (snd (bumpVersion key at s)) \<and> db_open (snd (bumpVersion key at s))"
    using assms
    by (simp add: bumpVersion_def run_def incrementVersion_sql_def getVersion_get_def
        scheduleSave_def clearTimeout_def Let_def split: prod.splits option.splits)
  with assms show ?thesis
    by (simp add: BumpVersion bumpVersion_versions)
next
  case (TimePasses t)
  have "initialized ((saveDatabase ^^ n) x) = initialized x" for n and x :: "'a Database"
    by (induction n) (simp_all add: saveDatabase_def Let_def)
  with assms show ?thesis
    by (simp add: TimePasses advance_def Let_def stored_version_def)
next
  case WriteSettles
  with assms show ?thesis
    by (simp add: write_settles_def Let_def stored_version_def)
next
  case ImmediateRuns
  with assms show ?thesis
    by (simp add: immediate_runs_def saveDatabase_def Let_def stored_version_def)
next
  case SaveDatabase
  with assms show ?thesis
    by (simp add: saveDatabase_def Let_def stored_version_def)
next
  case CloseDb
  with assms show ?thesis by simp
qed

lemma exec_versions:
  "initialized s \<Longrightarrow> db_open s \<Longrightarrow> list_all (\<lambda>e. \<not> is_close e) es \<Longrightarrow>
   stored_version (exec es s) d
     = map_option (sqlite_plus_one ^^ count_bumps d es) (stored_version s d)"
proof (induction es arbitrary: s)
  case Nil
  then show ?case by (simp add: count_bumps_def option.map_ident)
next
  case (Cons e es)
  from Cons.prems have ne: "\<not> is_close e" and rest: "list_all (\<lambda>e. \<not> is_close e) es"
    by simp_all
  note st = step_versions [OF Cons.prems(1,2) ne, of d]
  from st have "stored_version (exec es (step e s)) d
     = map_option (sqlite_plus_one ^^ count_bumps d es) (stored_version (step e s) d)"
    using rest by (intro Cons.IH) simp_all
  with st show ?case
    by (cases "stored_version s d") (simp_all add: count_bumps_def funpow_swap1)
qed

lemma stored_version_dom: "dom (stored_version s) = dom (data_versions (tables s))"
  by (auto simp: stored_version_def dom_def)

lemma exec_dom:
  assumes "initialized s" and "db_open s" and "list_all (\<lambda>e. \<not> is_close e) es"
  shows "dom (data_versions (tables (exec es s))) = dom (data_versions (tables s))"
proof -
  have "(stored_version (exec es s) d = None) = (stored_version s d = None)" for d
    using exec_versions [OF assms, of d] by simp
  then have "dom (stored_version (exec es s)) = dom (stored_version s)"
    by (auto simp: dom_def)
  then show ?thesis
    by (simp add: stored_version_dom)
qed

lemma fresh_database_state:
  "initialized (fresh_database blank at)" "db_open (fresh_database blank at)"
  "dom (data_versions (tables (fresh_database blank at))) = {''raffles'', ''rules'', ''sponsors''}"
  "stored_version (fresh_database blank at) ''raffles'' = Some 0"
  by (auto simp: fresh_database_def initDb_def module_loaded_def schema_sql_def
      insert_or_ignore_def stored_version_def)

text \<open>
  In every state the module reaches from its load, an open database is an initialized
  one. At the end of the exact range the value read back is rounded: with \<open>2 ^ 53\<close>
  stored, the increment stores \<open>2 ^ 53 + 1\<close> and \<^verbatim>\<open>bumpVersion\<close> returns \<open>2 ^ 53\<close>.
\<close>

lemma step_open_initialized:
  "(db_open s \<longrightarrow> initialized s) \<Longrightarrow> (db_open (step e s) \<longrightarrow> initialized (step e s))"
proof (cases e)
  case (InitDb loaded at)
  assume "db_open s \<longrightarrow> initialized s"
  then show ?thesis by (simp add: InitDb initDb_def)
next
  case (Statement f)
  assume "db_open s \<longrightarrow> initialized s"
  then show ?thesis
    by (simp add: Statement run_def scheduleSave_def clearTimeout_def Let_def
        split: option.splits)
next
  case (BumpVersion key at)
  assume "db_open s \<longrightarrow> initialized s"
  then show ?thesis
    by (simp add: BumpVersion bumpVersion_snd run_def incrementVersion_sql_def scheduleSave_def
        clearTimeout_def Let_def split: option.splits prod.splits)
next
  case (TimePasses t)
  have "initialized ((saveDatabase ^^ n) x) = initialized x" for n and x :: "'a Database"
    by (induction n) (simp_all add: saveDatabase_def Let_def)
  moreover assume "db_open s \<longrightarrow> initialized s"
  ultimately show ?thesis
    by (simp add: TimePasses advance_def Let_def)
next
  case WriteSettles
  assume "db_open s \<longrightarrow> initialized s"
  then show ?thesis by (simp add: WriteSettles write_settles_def Let_def)
next
  case ImmediateRuns
  assume "db_open s \<longrightarrow> initialized s"
  then show ?thesis by (simp add: ImmediateRuns immediate_runs_def saveDatabase_def Let_def)
next
  case SaveDatabase
  assume "db_open s \<longrightarrow> initialized s"
  then show ?thesis by (simp add: SaveDatabase saveDatabase_def Let_def)
next
  case CloseDb
  show ?thesis by (simp add: CloseDb closeDb_def Let_def)
qed

lemma reachable_open_initialized:
  "db_open (exec es (module_loaded blank)) \<longrightarrow> initialized (exec es (module_loaded blank))"
proof -
  have "(db_open s \<longrightarrow> initialized s) \<Longrightarrow> (db_open (exec es s) \<longrightarrow> initialized (exec es s))"
    for s :: "'a Database"
    by (induction es arbitrary: s) (simp_all add: step_open_initialized)
  then show ?thesis
    by (simp add: module_loaded_def)
qed

lemma read_back_rounds:
  assumes "db_open s" and "data_versions (tables s) key = Some (2 ^ 53, u)"
  shows "fst (bumpVersion key at s) = Returned (2 ^ 53)"
    and "stored_version (snd (bumpVersion key at s)) key = Some (2 ^ 53 + 1)"
proof -
  have b: "bit_length 9007199254740993 = 54"
    by (simp add: bit_length.simps)
  have r: "to_double 9007199254740993 = 9007199254740992"
    by (simp add: to_double_def round_to_53_bits_def b Let_def)
  have p: "sqlite_plus_one 9007199254740992 = 9007199254740993"
    by (simp add: sqlite_plus_one_def sqlite_integer_def)
  show "fst (bumpVersion key at s) = Returned (2 ^ 53)"
    by (simp add: bumpVersion_row [OF assms] p r)
  have "stored_version s key = Some 9007199254740992"
    using assms by (simp add: stored_version_def)
  then show "stored_version (snd (bumpVersion key at s)) key = Some (2 ^ 53 + 1)"
    using assms(1) by (simp add: bumpVersion_versions p)
qed

section \<open>Handlers: lemmas\<close>

text \<open>Decimal digits: \<^verbatim>\<open>parseInt\<close> reads back what \<open>digits_of_nat\<close> prints.\<close>

lemma digit_char_decimal: "d < 10 \<Longrightarrow> is_decimal (digit_char d)"
  by (simp add: is_decimal_def digit_char_def)

lemma digit_of_digit_char: "d < 10 \<Longrightarrow> digit_of 10 (digit_char d) = Some d"
  by (simp add: digit_of_def digit_char_def)

lemma digits_of_nat_decimal: "c \<in> set (digits_of_nat n) \<Longrightarrow> is_decimal c"
proof (induction n rule: digits_of_nat.induct)
  case (1 n)
  show ?case
  proof (cases "n < 10")
    case True
    with "1.prems" show ?thesis
      by (simp add: digits_of_nat.simps [of n] digit_char_decimal)
  next
    case False
    with "1.prems" have "c \<in> set (digits_of_nat (n div 10)) \<or> c = digit_char (n mod 10)"
      by (auto simp: digits_of_nat.simps [of n])
    with False "1.IH" show ?thesis
      by (auto simp: digit_char_decimal)
  qed
qed

lemma digits_of_nat_nonempty: "digits_of_nat n \<noteq> []"
  by (simp add: digits_of_nat.simps [of n])

lemma take_digits_append:
  "take_digits 10 (digits_of_nat n @ rest) = take_digits 10 (digits_of_nat n) @ take_digits 10 rest"
proof (induction n arbitrary: rest rule: digits_of_nat.induct)
  case (1 n)
  show ?case
  proof (cases "n < 10")
    case True
    then show ?thesis
      by (simp add: digits_of_nat.simps [of n] digit_of_digit_char)
  next
    case False
    have c: "digit_of 10 (digit_char (n mod 10)) = Some (n mod 10)"
      by (simp add: digit_of_digit_char)
    have whole: "take_digits 10 (digits_of_nat n @ rest)
        = take_digits 10 (digits_of_nat (n div 10)) @ (n mod 10) # take_digits 10 rest"
      using False "1.IH" [OF False, of "digit_char (n mod 10) # rest"]
      by (simp add: digits_of_nat.simps [of n] c)
    have front: "take_digits 10 (digits_of_nat n)
        = take_digits 10 (digits_of_nat (n div 10)) @ [n mod 10]"
      using False "1.IH" [OF False, of "[digit_char (n mod 10)]"]
      by (simp add: digits_of_nat.simps [of n] c)
    show ?thesis
      by (simp add: whole front)
  qed
qed

lemma digits_value_snoc: "digits_value R (ds @ [d]) = digits_value R ds * R + d"
  by (simp add: digits_value_def)

lemma digits_roundtrip:
  "digits_value 10 (take_digits 10 (digits_of_nat n)) = n \<and> take_digits 10 (digits_of_nat n) \<noteq> []"
proof (induction n rule: digits_of_nat.induct)
  case (1 n)
  show ?case
  proof (cases "n < 10")
    case True
    then show ?thesis
      by (simp add: digits_of_nat.simps [of n] digit_of_digit_char digits_value_def)
  next
    case False
    have "take_digits 10 (digits_of_nat n)
        = take_digits 10 (digits_of_nat (n div 10)) @ [n mod 10]"
      using False take_digits_append [of "n div 10" "[digit_char (n mod 10)]"]
      by (simp add: digits_of_nat.simps [of n] digit_of_digit_char)
    with "1.IH" [OF False] show ?thesis
      by (simp add: digits_value_snoc)
  qed
qed

lemma decimal_plain:
  "is_decimal c \<Longrightarrow> \<not> is_space c \<and> c \<noteq> CHR ''-'' \<and> c \<noteq> CHR ''+'' \<and> c \<noteq> CHR ''x'' \<and> c \<noteq> CHR ''X''"
  by (auto simp: is_decimal_def is_space_def)

lemma parseInt_decimals:
  assumes "ds \<noteq> []" and "\<forall>c \<in> set ds. is_decimal c"
  shows "parseInt ds =
      (if take_digits 10 ds = [] then NaN
       else to_number False (digits_value 10 (take_digits 10 ds)))"
    and "parseInt (CHR ''-'' # ds) =
      (if take_digits 10 ds = [] then NaN
       else to_number True (digits_value 10 (take_digits 10 ds)))"
proof -
  from assms obtain c r where ds: "ds = c # r" and c: "is_decimal c"
    by (cases ds) auto
  have nohex: "(case ds of a # b # r \<Rightarrow> a = CHR ''0'' \<and> (b = CHR ''x'' \<or> b = CHR ''X'') | _ \<Rightarrow> False) = False"
  proof (cases r)
    case Nil
    with ds show ?thesis by simp
  next
    case (Cons b r')
    with assms ds have "is_decimal b" by simp
    with ds Cons show ?thesis by (simp add: decimal_plain)
  qed
  have sp: "dropWhile is_space ds = ds"
    using ds c by (simp add: decimal_plain)
  have pl: "c \<noteq> CHR ''-''" "c \<noteq> CHR ''+''"
    using c by (simp_all add: decimal_plain)
  show "parseInt ds =
      (if take_digits 10 ds = [] then NaN
       else to_number False (digits_value 10 (take_digits 10 ds)))"
    unfolding parseInt_def sp using nohex pl by (simp add: ds Let_def)
  have sp': "dropWhile is_space (CHR ''-'' # ds) = CHR ''-'' # ds"
    by (simp add: is_space_def)
  show "parseInt (CHR ''-'' # ds) =
      (if take_digits 10 ds = [] then NaN
       else to_number True (digits_value 10 (take_digits 10 ds)))"
    unfolding parseInt_def sp' using nohex by (simp add: Let_def)
qed

lemma to_number_small:
  assumes "n \<le> 2 ^ 53"
  shows "to_number neg n = Whole (if neg then - int n else int n)"
proof -
  have "(2::nat) ^ 53 < 2 ^ 1024"
    by (rule power_strict_increasing) simp_all
  with assms have "\<not> 2 ^ 1024 \<le> n" by simp
  with assms show ?thesis
    by (simp add: to_number_def round_to_53_bits_small Let_def)
qed

text \<open>
  In the exact range \<^verbatim>\<open>String\<close> prints all digits of a version, \<^verbatim>\<open>parseInt\<close>
  reads them back, and the text is a single member of a token list.
\<close>

lemma Number_toString_exact:
  assumes "\<bar>v\<bar> \<le> 2 ^ 53"
  shows "Number_toString v
      = (if v < 0 then CHR ''-'' # digits_of_nat (nat (- v)) else digits_of_nat (nat v))"
proof -
  from assms have "nat (- v) \<le> 2 ^ 53" and "nat v \<le> 2 ^ 53"
    by (simp_all add: nat_le_iff)
  then show ?thesis
    by (simp add: Number_toString_def magnitude_toString_def)
qed

lemma parseInt_Number_toString:
  assumes "\<bar>v\<bar> \<le> 2 ^ 53"
  shows "parseInt (Number_toString v) = Whole v"
proof (cases "v < 0")
  case True
  from assms have le: "nat (- v) \<le> 2 ^ 53"
    by (simp add: nat_le_iff)
  have "parseInt (CHR ''-'' # digits_of_nat (nat (- v))) = to_number True (nat (- v))"
    using parseInt_decimals(2) [of "digits_of_nat (nat (- v))"] digits_roundtrip [of "nat (- v)"]
    by (simp add: digits_of_nat_nonempty digits_of_nat_decimal)
  with True show ?thesis
    by (simp add: Number_toString_exact [OF assms] to_number_small [OF le])
next
  case False
  from assms have le: "nat v \<le> 2 ^ 53"
    by (simp add: nat_le_iff)
  have "parseInt (digits_of_nat (nat v)) = to_number False (nat v)"
    using parseInt_decimals(1) [of "digits_of_nat (nat v)"] digits_roundtrip [of "nat v"]
    by (simp add: digits_of_nat_nonempty digits_of_nat_decimal)
  with False show ?thesis
    by (simp add: Number_toString_exact [OF assms] to_number_small [OF le])
qed

lemma Number_toString_chars:
  assumes "\<bar>v\<bar> \<le> 2 ^ 53" and "c \<in> set (Number_toString v)"
  shows "is_decimal c \<or> c = CHR ''-''"
  using assms by (auto simp: Number_toString_exact digits_of_nat_decimal split: if_splits)

lemma Number_toString_nonempty: "\<bar>v\<bar> \<le> 2 ^ 53 \<Longrightarrow> Number_toString v \<noteq> []"
  by (simp add: Number_toString_exact digits_of_nat_nonempty)

lemma Number_toString_inj:
  assumes "\<bar>v\<bar> \<le> 2 ^ 53" and "\<bar>v'\<bar> \<le> 2 ^ 53" and "Number_toString v = Number_toString v'"
  shows "v = v'"
proof -
  have "Whole v = parseInt (Number_toString v)"
    by (simp only: parseInt_Number_toString [OF assms(1)])
  also have "\<dots> = parseInt (Number_toString v')"
    by (simp only: assms(3))
  also have "\<dots> = Whole v'"
    by (simp only: parseInt_Number_toString [OF assms(2)])
  finally show ?thesis
    by simp
qed

lemma split_commas_plain: "CHR '','' \<notin> set s \<Longrightarrow> split_commas s = [s]"
  by (induction s) auto

lemma trim_plain: "\<forall>c \<in> set s. \<not> blank c \<Longrightarrow> trim blank s = s"
proof -
  assume a: "\<forall>c \<in> set s. \<not> blank c"
  then have "dropWhile blank s = s"
    by (cases s) simp_all
  moreover from a have "dropWhile blank (rev s) = rev s"
    by (cases "rev s") (simp, metis dropWhile.simps(2) list.set_intros(1) set_rev)
  ultimately show ?thesis
    by (simp add: trim_def)
qed

lemma parseTokenList_version:
  assumes "\<bar>v\<bar> \<le> 2 ^ 53"
  shows "parseTokenList (Number_toString v) = [Number_toString v]"
proof -
  have plain: "c \<noteq> CHR '','' \<and> c \<noteq> CHR '' ''" if "c \<in> set (Number_toString v)" for c
    using Number_toString_chars [OF assms that] by (auto simp: is_decimal_def)
  then have "CHR '','' \<notin> set (Number_toString v)"
    by blast
  then have "split_commas (Number_toString v) = [Number_toString v]"
    by (rule split_commas_plain)
  moreover have "trim (\<lambda>c. c = CHR '' '') (Number_toString v) = Number_toString v"
    using plain by (intro trim_plain) blast
  ultimately show ?thesis
    by (simp add: parseTokenList_def)
qed

lemma version_text_head:
  assumes "\<bar>v\<bar> \<le> 2 ^ 53"
  shows "Number_toString v \<noteq> ''W/'' @ t" and "Number_toString v \<noteq> ''*''"
proof -
  have "hd (Number_toString v) \<in> set (Number_toString v)"
    using Number_toString_nonempty [OF assms] by simp
  then have "is_decimal (hd (Number_toString v)) \<or> hd (Number_toString v) = CHR ''-''"
    by (rule Number_toString_chars [OF assms])
  then have h: "hd (Number_toString v) \<noteq> CHR ''W''" "hd (Number_toString v) \<noteq> CHR ''*''"
    by (auto simp: is_decimal_def)
  from h(1) show "Number_toString v \<noteq> ''W/'' @ t"
    by (cases "Number_toString v") auto
  from h(2) show "Number_toString v \<noteq> ''*''"
    by (cases "Number_toString v") auto
qed

lemma issued_token_matches:
  assumes "\<bar>v\<bar> \<le> 2 ^ 53" and "\<bar>v'\<bar> \<le> 2 ^ 53"
  shows "token_matches (Some (Number_toString v')) v = (v' = v)"
  using assms
  by (auto simp: token_matches_def parseInt_Number_toString Number_toString_nonempty)

lemma issued_token_etag:
  assumes "\<bar>v\<bar> \<le> 2 ^ 53" and "\<bar>v'\<bar> \<le> 2 ^ 53"
  shows "etag_matches (Number_toString v) (Number_toString v') = (v' = v)"
proof -
  have "Number_toString v' = Number_toString v \<longleftrightarrow> v' = v"
    using Number_toString_inj [OF assms(2,1)] by auto
  moreover have "Number_toString v' \<noteq> ''W/'' @ Number_toString v"
    by (rule version_text_head(1) [OF assms(2)])
  moreover have "''W/'' @ Number_toString v' \<noteq> Number_toString v"
    using version_text_head(1) [OF assms(1), of "Number_toString v'"] by simp
  ultimately show ?thesis
    by (simp add: etag_matches_def parseTokenList_version [OF assms(2)])
qed

text \<open>
  A request whose \<^verbatim>\<open>If-None-Match\<close> is the text of a version other than the
  current one is not fresh, whatever its other headers.
\<close>

lemma stale_token_not_fresh:
  assumes "\<bar>v\<bar> \<le> 2 ^ 53" and "\<bar>v'\<bar> \<le> 2 ^ 53" and "v' \<noteq> v"
    and "if_none_match req = Some (Number_toString v')"
  shows "\<not> fresh ex req (Number_toString v)"
proof -
  have t: "truthy (if_none_match req)"
    by (simp add: truthy_def assms(4) Number_toString_nonempty [OF assms(2)])
  have star: "if_none_match req \<noteq> Some ''*''"
    using version_text_head(2) [OF assms(2)] by (simp add: assms(4))
  have nm: "\<not> etag_matches (Number_toString v) (header_text (if_none_match req))"
    using issued_token_etag [OF assms(1,2)] assms(3) by (simp add: header_text_def assms(4))
  from t star nm show ?thesis
    by (cases ex) (simp_all add: fresh_def)
qed

text \<open>The parts of a mutating handler: a statement, a transaction, the tail.\<close>

lemma scheduleSave_effect:
  "next_handle (scheduleSave s) = Suc (next_handle s)"
  "clock (scheduleSave s) = clock s"
  "save_armed (scheduleSave s) (clock s + 1000)"
  by (simp_all add: scheduleSave_def clearTimeout_def save_armed_def Let_def split: option.splits)

lemma run_accepted:
  assumes "db_open s" and "sql (tables s) = Some (tb, n)"
  shows "run sql s = (Returned n, scheduleSave (s\<lparr>tables := tb\<rparr>))"
  using assms by (simp add: run_def)

lemma run_rejected:
  assumes "\<not> db_open s \<or> sql (tables s) = None"
  shows "run sql s = (Threw, s)"
  using assms by (auto simp: run_def)

lemma scheduled_refl: "db_open (database s) \<Longrightarrow> scheduled 0 s s"
  by (simp add: scheduled_def)

lemma scheduled_trans: "scheduled j s s1 \<Longrightarrow> scheduled k s1 s2 \<Longrightarrow> scheduled (j + k) s s2"
  by (simp add: scheduled_def replicate_add)

lemma statement_run_returned:
  assumes "fst (statement_run f s) = Returned n"
  shows "scheduled 1 s (snd (statement_run f s))"
proof (cases "db_open (database s)")
  case False
  then have "run (on_content f) (database s) = (Threw, database s)"
    by (intro run_rejected) simp
  with assms show ?thesis
    by (simp add: statement_run_def in_database_def)
next
  case True
  show ?thesis
  proof (cases "f (content (tables (database s)))")
    case None
    then have "run (on_content f) (database s) = (Threw, database s)"
      by (intro run_rejected) (simp add: on_content_def)
    with assms show ?thesis
      by (simp add: statement_run_def in_database_def)
  next
    case (Some r)
    obtain c m where r: "r = (c, m)" by (cases r)
    have "on_content f (tables (database s)) = Some ((tables (database s))\<lparr>content := c\<rparr>, m)"
      by (simp add: on_content_def Some r)
    from run_accepted [of "database s" "on_content f", OF True this] True show ?thesis
      by (simp add: statement_run_def in_database_def scheduled_def scheduleSave_effect)
  qed
qed

lemma run_each_returned:
  "db_open db \<Longrightarrow> fst (run_each (map on_content fs) db) = Returned u \<Longrightarrow>
   db_open (snd (run_each (map on_content fs) db))
   \<and> next_handle (snd (run_each (map on_content fs) db)) = next_handle db + length fs
   \<and> clock (snd (run_each (map on_content fs) db)) = clock db
   \<and> data_versions (tables (snd (run_each (map on_content fs) db))) = data_versions (tables db)"
proof (induction fs arbitrary: db)
  case Nil
  then show ?case by simp
next
  case (Cons f fs)
  show ?case
  proof (cases "f (content (tables db))")
    case None
    then have "run (on_content f) db = (Threw, db)"
      by (intro run_rejected) (simp add: on_content_def)
    with Cons.prems show ?thesis by simp
  next
    case (Some r)
    obtain c m where r: "r = (c, m)" by (cases r)
    define db1 where "db1 = scheduleSave (db\<lparr>tables := (tables db)\<lparr>content := c\<rparr>\<rparr>)"
    have "on_content f (tables db) = Some ((tables db)\<lparr>content := c\<rparr>, m)"
      by (simp add: on_content_def Some r)
    from run_accepted [of db "on_content f", OF Cons.prems(1) this]
    have r1: "run (on_content f) db = (Returned m, db1)"
      by (simp add: db1_def)
    have db1: "db_open db1" "next_handle db1 = Suc (next_handle db)" "clock db1 = clock db"
      "data_versions (tables db1) = data_versions (tables db)"
      using Cons.prems(1) by (simp_all add: db1_def scheduleSave_effect)
    have step: "run_each (map on_content (f # fs)) db = run_each (map on_content fs) db1"
      by (simp add: r1)
    from Cons.prems(2) have "fst (run_each (map on_content fs) db1) = Returned u"
      by (simp only: step)
    from Cons.IH [OF db1(1) this] show ?thesis
      by (simp only: step db1) simp
  qed
qed

lemma transaction_returned:
  assumes "fst (in_database (transaction (run_each (map on_content fs))) s) = Returned u"
  shows "scheduled (Suc (length fs)) s
           (snd (in_database (transaction (run_each (map on_content fs))) s))"
proof (cases "db_open (database s)")
  case False
  with assms show ?thesis
    by (simp add: in_database_def transaction_def)
next
  case True
  define db where "db = database s"
  obtain r db1 where body: "run_each (map on_content fs) db = (r, db1)"
    by (cases "run_each (map on_content fs) db")
  show ?thesis
  proof (cases r)
    case Threw
    with assms True body show ?thesis
      by (simp add: in_database_def transaction_def db_def)
  next
    case (Returned u')
    with body have "fst (run_each (map on_content fs) db) = Returned u'"
      by simp
    from run_each_returned [OF _ this] True body
    have db1: "db_open db1" "next_handle db1 = next_handle db + length fs" "clock db1 = clock db"
      "data_versions (tables db1) = data_versions (tables db)"
      by (simp_all add: db_def)
    have t: "transaction (run_each (map on_content fs)) db = (Returned (), scheduleSave db1)"
      using True body Returned by (simp add: transaction_def db_def)
    show ?thesis
      using True db1
      by (simp add: in_database_def t db_def [symmetric] scheduled_def scheduleSave_effect)
  qed
qed

lemma bumpVersion_open:
  assumes "db_open s"
  shows "\<exists>tb. bumpVersion key at s
      = (Returned (version_or_zero
           (map_option (\<lambda>v. to_double (sqlite_plus_one v)) (stored_version s key))),
         scheduleSave (s\<lparr>tables := tb\<rparr>))"
proof (cases "data_versions (tables s) key")
  case None
  have "bumpVersion key at s = (Returned 0, scheduleSave (s\<lparr>tables := tables s\<rparr>))"
    using assms None by (simp add: bumpVersion_no_row)
  moreover have "version_or_zero
      (map_option (\<lambda>v. to_double (sqlite_plus_one v)) (stored_version s key)) = 0"
    using None by (simp add: stored_version_def version_or_zero_def)
  ultimately show ?thesis
    by (intro exI [of _ "tables s"]) (simp only:)
next
  case (Some row)
  obtain v u where "row = (v, u)" by (cases row)
  with Some assms show ?thesis
    by (auto simp: bumpVersion_row stored_version_def)
qed

lemma tail_open:
  assumes "db_open (database s)"
  shows "fst (tail_and_answer d at s) = 200"
    and "tail_issued d s (snd (tail_and_answer d at s))"
proof -
  define db where "db = database s"
  define w where "w = version_or_zero
      (map_option (\<lambda>v. to_double (sqlite_plus_one v)) (stored_version db d))"
  from bumpVersion_open [OF assms, of d at]
  obtain tb where b: "bumpVersion d at db = (Returned w, scheduleSave (db\<lparr>tables := tb\<rparr>))"
    by (auto simp: db_def w_def)
  define db3 where "db3 = scheduleSave (db\<lparr>tables := tb\<rparr>)"
  have open3: "db_open db3" and nh: "next_handle db3 = Suc (next_handle db)"
    and ck: "clock db3 = clock db" and armed: "save_armed db3 (clock db + 1000)"
    using assms scheduleSave_effect [of "db\<lparr>tables := tb\<rparr>"]
    by (simp_all add: db3_def db_def)
  have sv3: "stored_version db3 k
      = (if k = d then map_option sqlite_plus_one (stored_version db k) else stored_version db k)"
    for k
    using bumpVersion_versions [of d at db k] assms b by (simp add: db3_def db_def)
  have cur: "version_or_zero (map_option to_double (stored_version db3 d)) = w"
    by (simp add: sv3 w_def option.map_comp comp_def)
  have row: "map_option (\<lambda>(v, u). to_double v) (data_versions (tables db3) d)
      = map_option to_double (stored_version db3 d)"
    by (simp add: stored_version_def option.map_comp comp_def case_prod_unfold)
  let ?s2 = "s\<lparr>data_cache := invalidate d (data_cache s), trace := trace s @ [InvalidateCache d]\<rparr>"
  let ?s3 = "?s2\<lparr>database := db3,
      trace := trace s @ [InvalidateCache d, IncrementVersion d, ScheduleSave]\<rparr>"
  let ?s4 = "?s3\<lparr>sse := broadcast ''update'' (update_data d w) (sse s),
      trace := trace s @ [InvalidateCache d, IncrementVersion d, ScheduleSave,
        Broadcast ''update'' (update_data d w)]\<rparr>"
  have r2: "srv_invalidate d s = ?s2"
    by (simp add: srv_invalidate_def)
  have r3: "srv_bumpVersion d at ?s2 = (Returned w, ?s3)"
    using b nh by (simp add: srv_bumpVersion_def db_def [symmetric] db3_def [symmetric])
  have r4: "notifyClients d ?s3 = (Returned (), ?s4)"
    using open3 by (simp add: notifyClients_def getVersion_get_def row cur)
  have tail: "mutation_tail d at s = (Returned (), ?s4)"
    by (simp only: mutation_tail_def r2 r3 r4 prod.case outcome.case)
  have ans: "tail_and_answer d at s = (200, ?s4)"
    by (simp only: tail_and_answer_def tail prod.case outcome.case)
  show "fst (tail_and_answer d at s) = 200"
    by (simp only: ans fst_conv)
  have cv: "current_version ?s4 d = w"
    by (simp add: current_version_def cur)
  show "tail_issued d s (snd (tail_and_answer d at s))"
    unfolding ans snd_conv tail_issued_def cv
    using open3 nh ck armed sv3 [of d]
    by (simp add: invalidate_def db_def)
qed

lemma run_then_tail_200:
  assumes "fst (run_then_tail d f at s) = 200"
  shows "scheduled 1 s (snd (statement_run f s))"
    and "tail_issued d (snd (statement_run f s)) (snd (run_then_tail d f at s))"
proof -
  obtain r s1 where sr: "statement_run f s = (r, s1)"
    by (cases "statement_run f s")
  from assms sr obtain n where r: "r = Returned n"
    by (cases r) (simp_all add: run_then_tail_def)
  from statement_run_returned [of f s n] sr r have sch: "scheduled 1 s s1"
    by simp
  then have op: "db_open (database s1)"
    by (simp add: scheduled_def)
  have rt: "run_then_tail d f at s = tail_and_answer d at s1"
    by (simp add: run_then_tail_def sr r)
  from sch show "scheduled 1 s (snd (statement_run f s))"
    by (simp add: sr)
  from tail_open(2) [OF op, of d at]
  show "tail_issued d (snd (statement_run f s)) (snd (run_then_tail d f at s))"
    by (simp add: sr rt)
qed

lemma issued_in_order:
  assumes "scheduled k s s1" and "tail_issued d s1 s2"
  shows "trace s2 = trace s @ replicate k ScheduleSave
           @ [InvalidateCache d, IncrementVersion d, ScheduleSave,
              Broadcast ''update'' (update_data d (current_version s2 d))]"
    and "cache (data_cache s2) d = None"
    and "stored_version (database s2) d
           = map_option sqlite_plus_one (stored_version (database s) d)"
    and "sse s2 = broadcast ''update'' (update_data d (current_version s2 d)) (sse s)"
    and "next_handle (database s2) = next_handle (database s) + k + 1"
    and "save_armed (database s2) (clock (database s) + 1000)"
    and "db_open (database s) \<and> db_open (database s2)"
  using assms by (simp_all add: scheduled_def tail_issued_def stored_version_def)

lemma statement_run_accepted:
  assumes "db_open (database s)" and "f (content (tables (database s))) = Some (c, n)"
  shows "fst (statement_run f s) = Returned n"
proof -
  have "on_content f (tables (database s))
      = Some ((tables (database s))\<lparr>content := c\<rparr>, n)"
    by (simp add: on_content_def assms(2))
  from run_accepted [of "database s" "on_content f", OF assms(1) this] show ?thesis
    by (simp add: statement_run_def in_database_def)
qed

lemma run_then_tail_accepted:
  assumes "db_open (database s)" and "f (content (tables (database s))) = Some (c, n)"
  shows "fst (run_then_tail d f at s) = 200"
proof -
  obtain r s1 where sr: "statement_run f s = (r, s1)"
    by (cases "statement_run f s")
  with statement_run_accepted [where s = s and f = f, OF assms] have r: "r = Returned n"
    by simp
  from statement_run_returned [of f s n] sr r have "scheduled 1 s s1"
    by simp
  then have "db_open (database s1)"
    by (simp add: scheduled_def)
  from tail_open(1) [OF this, of d at] show ?thesis
    by (simp add: run_then_tail_def sr r)
qed

text \<open>
  Every mutating handler that answers 200 has scheduled its saves and then issued the
  tail, in its last stretch; a handler that awaited a download had scheduled one save
  before.
\<close>

lemma handle_200:
  assumes "fst (handle Proceeds m at s) = 200"
  shows "scheduled (earlier_saves m) s (suspended m s)
    \<and> (\<exists>s1. scheduled (statement_saves m) (resumed m s) s1
              \<and> tail_issued (domain_of m) s1 (snd (handle Proceeds m at s)))"
proof (cases m)
  case (PostRaffles f)
  with assms have "fst (run_then_tail ''raffles'' f at s) = 200"
    by (simp add: post_raffles_def)
  from run_then_tail_200 [OF this] show ?thesis
    by (auto simp: PostRaffles post_raffles_def scheduled_def)
next
  case (PutRafflesReorder fs)
  obtain r s1 where tr: "in_database (transaction (run_each (map on_content fs))) s = (r, s1)"
    by (cases "in_database (transaction (run_each (map on_content fs))) s")
  from assms tr obtain u where r: "r = Returned u"
    by (cases r) (simp_all add: PutRafflesReorder put_raffles_reorder_def)
  from transaction_returned [of fs s u] tr r have sch: "scheduled (Suc (length fs)) s s1"
    by simp
  then have "db_open (database s1)" and "db_open (database s)"
    by (simp_all add: scheduled_def)
  from tail_open(2) [OF this(1), of "''raffles''" at] sch this(2) show ?thesis
    by (auto simp: PutRafflesReorder put_raffles_reorder_def tr r scheduled_refl)
next
  case (PutRaffle f img meanwhile g)
  obtain r s1 where sr: "statement_run f s = (r, s1)"
    by (cases "statement_run f s")
  from assms sr obtain n where r: "r = Returned n"
    by (cases r) (simp_all add: PutRaffle put_raffle_def)
  from statement_run_returned [of f s n] sr r have sch: "scheduled 1 s s1"
    by simp
  then have op: "db_open (database s1)" and op0: "db_open (database s)"
    by (simp_all add: scheduled_def)
  show ?thesis
  proof (cases img)
    case NoImage
    from tail_open(2) [OF op, of "''raffles''" at] sch op0 show ?thesis
      by (auto simp: PutRaffle NoImage put_raffle_def sr r scheduled_refl)
  next
    case ImageFile
    with assms have "fst (run_then_tail ''raffles'' g at s1) = 200"
      by (simp add: PutRaffle put_raffle_def sr r)
    note rt = run_then_tail_200 [OF this]
    from scheduled_trans [OF sch rt(1)] have "scheduled 2 s (snd (statement_run g s1))"
      by (simp add: numeral_2_eq_2)
    with rt(2) op0 show ?thesis
      by (auto simp: PutRaffle ImageFile put_raffle_def sr r scheduled_refl)
  next
    case (ImageUrl downloaded)
    with assms have dl: downloaded
      by (cases downloaded) (simp_all add: PutRaffle put_raffle_def sr r)
    with assms ImageUrl have "fst (run_then_tail ''raffles'' g at (meanwhile s1)) = 200"
      by (simp add: PutRaffle put_raffle_def sr r)
    note rt = run_then_tail_200 [OF this]
    from rt sch show ?thesis
      by (auto simp: PutRaffle ImageUrl dl put_raffle_def sr r)
  qed
next
  case (PutRaffleWinner f)
  with assms have "fst (run_then_tail ''raffles'' f at s) = 200"
    by (simp add: put_raffle_winner_def)
  from run_then_tail_200 [OF this] show ?thesis
    by (auto simp: PutRaffleWinner put_raffle_winner_def scheduled_def)
next
  case (DeleteRaffle f)
  with assms have "fst (run_then_tail ''raffles'' f at s) = 200"
    by (simp add: delete_raffle_def)
  from run_then_tail_200 [OF this] show ?thesis
    by (auto simp: DeleteRaffle delete_raffle_def scheduled_def)
next
  case (PutRules f)
  with assms have "fst (run_then_tail ''rules'' f at s) = 200"
    by (simp add: put_rules_def)
  from run_then_tail_200 [OF this] show ?thesis
    by (auto simp: PutRules put_rules_def scheduled_def)
next
  case (PostSponsors f)
  with assms have "fst (run_then_tail ''sponsors'' f at s) = 200"
    by (simp add: post_sponsors_def)
  from run_then_tail_200 [OF this] show ?thesis
    by (auto simp: PostSponsors post_sponsors_def scheduled_def)
next
  case (DeleteSponsor f)
  with assms have "fst (run_then_tail ''sponsors'' f at s) = 200"
    by (simp add: delete_sponsor_def)
  from run_then_tail_200 [OF this] show ?thesis
    by (auto simp: DeleteSponsor delete_sponsor_def scheduled_def)
qed

lemma statement_saves_positive: "0 < statement_saves m"
  by (cases m rule: statement_saves.cases) simp_all

text \<open>
  \<^verbatim>\<open>PUT /api/raffles/:id\<close> with an image URL whose download fails: the update has
  run and scheduled its save, and the handler answers 400 when it resumes, before the
  tail.
\<close>

lemma put_raffle_failed_download:
  assumes "fst (statement_run f s) = Returned n"
  shows "put_raffle Proceeds f (ImageUrl False) meanwhile g at s
      = (400, meanwhile (snd (statement_run f s)))"
    and "scheduled 1 s (snd (statement_run f s))"
proof -
  from assms show "put_raffle Proceeds f (ImageUrl False) meanwhile g at s
      = (400, meanwhile (snd (statement_run f s)))"
    by (cases "statement_run f s") (simp add: put_raffle_def)
  from assms show "scheduled 1 s (snd (statement_run f s))"
    by (rule statement_run_returned)
qed

text \<open>The read handlers.\<close>

lemma conditional_get_cases:
  assumes "db_open (database s)"
  shows "conditional_get ex key ma q False req t1 t2 t3 s =
     (if token_matches (if_none_match req) (current_version s key)
      then (Returned not_modified, s)
      else (Returned (res_json ex req (Number_toString (current_version s key)) ma
                        (cached_or_fresh key q t1 s)),
            materialized key q t1 t2 t3 s))"
proof -
  have row: "map_option (\<lambda>(v, u). to_double v) (data_versions (tables (database s)) key)
      = map_option to_double (stored_version (database s) key)"
    by (simp add: stored_version_def option.map_comp comp_def case_prod_unfold)
  show ?thesis
    using assms
    by (simp add: conditional_get_def getVersion_get_def row current_version_def
        cached_or_fresh_def materialized_def Let_def split: prod.splits option.splits)
qed

lemma Number_toString_not_empty: "Number_toString v \<noteq> []"
  by (simp add: Number_toString_def magnitude_toString_def digits_of_nat_nonempty
      split: prod.splits)

lemma fresh_plain:
  assumes "\<not> truthy (if_modified_since req)" and "\<not> truthy (cache_control_header req)"
    and "tag \<noteq> []"
  shows "fresh ex req tag
      = (truthy (if_none_match req)
         \<and> (if_none_match req = Some ''*''
            \<or> etag_matches tag (header_text (if_none_match req))))"
  using assms by (cases ex) (auto simp: fresh_def)

lemma srv0_state:
  "db_open (database srv0)" "stored_version (database srv0) ''raffles'' = Some 0"
  "trace srv0 = []" "content (tables (database srv0)) = []"
  "clients (sse srv0) = [1]" "next_handle (database srv0) = 1" "clock (database srv0) = 0"
proof -
  show "db_open (database srv0)" "stored_version (database srv0) ''raffles'' = Some 0"
    "trace srv0 = []"
    by (simp_all add: srv0_def server_started_def fresh_database_state)
  show "content (tables (database srv0)) = []"
    by (simp add: srv0_def server_started_def fresh_database_def initDb_def module_loaded_def
        schema_sql_def insert_or_ignore_def)
  show "clients (sse srv0) = [1]"
    by (simp add: srv0_def one_listener_def addClient_def new_SSEManager_def fresh_channel_def
        writeHead_def ch_write_def set_add_def Let_def)
  show "next_handle (database srv0) = 1" "clock (database srv0) = 0"
    by (simp_all add: srv0_def server_started_def fresh_database_def initDb_def module_loaded_def
        scheduleSave_def)
qed

lemma first_raffle_accepted:
  "fst (handle Proceeds (PostRaffles (insert_row 7)) ''t1'' srv0) = 200"
proof -
  have "insert_row 7 (content (tables (database srv0))) = Some ([7], 1)"
    by (simp add: insert_row_def srv0_state)
  from run_then_tail_accepted [where s = srv0 and f = "insert_row 7", OF srv0_state(1) this]
  show ?thesis
    by (simp add: post_raffles_def)
qed

lemma srv1_state:
  "db_open (database srv1)" "current_version srv1 ''raffles'' = 1"
  "cache (data_cache srv1) ''raffles'' = None"
  "trace srv1
     = [ScheduleSave, InvalidateCache ''raffles'', IncrementVersion ''raffles'', ScheduleSave,
        Broadcast ''update'' (update_data ''raffles'' 1)]"
  "content (tables (database srv1)) = [7]"
proof -
  from handle_200 [OF first_raffle_accepted]
  obtain s1 where sch: "scheduled 1 srv0 s1" and tl: "tail_issued ''raffles'' s1 srv1"
    by (auto simp: srv1_def)
  note io = issued_in_order [OF sch tl]
  have one: "sqlite_plus_one 0 = 1" and dbl: "to_double 1 = 1"
    by (simp_all add: sqlite_plus_one_def sqlite_integer_def to_double_small)
  from io(3) have sv: "stored_version (database srv1) ''raffles'' = Some 1"
    by (simp add: srv0_state one)
  then show cv: "current_version srv1 ''raffles'' = 1"
    by (simp add: current_version_def dbl)
  from io(7) show "db_open (database srv1)" by simp
  from io(2) show "cache (data_cache srv1) ''raffles'' = None" .
  from io(1) show "trace srv1
     = [ScheduleSave, InvalidateCache ''raffles'', IncrementVersion ''raffles'', ScheduleSave,
        Broadcast ''update'' (update_data ''raffles'' 1)]"
    by (simp add: srv0_state cv)
  show "content (tables (database srv1)) = [7]"
    by (simp add: srv1_def post_raffles_def run_then_tail_def statement_run_def in_database_def
        run_def on_content_def insert_row_def srv0_state tail_and_answer_def mutation_tail_def
        srv_invalidate_def srv_bumpVersion_def bumpVersion_def incrementVersion_sql_def
        getVersion_get_def notifyClients_def split: option.splits prod.splits)
qed

text \<open>
  Beyond the exact range \<^verbatim>\<open>parseInt\<close> rounds as doubles do: \<open>2 ^ 53 + 1\<close> is read
  as \<open>2 ^ 53\<close>.
\<close>

lemma parseInt_rounds: "parseInt ''9007199254740993'' = Whole 9007199254740992"
proof -
  have b: "bit_length 9007199254740993 = 54"
    by (simp add: bit_length.simps)
  have "round_to_53_bits 9007199254740993 = 9007199254740992"
    by (simp add: round_to_53_bits_def b Let_def)
  then have "to_number False 9007199254740993 = Whole 9007199254740992"
    by (simp add: to_number_def Let_def)
  then show ?thesis
    by (simp add: parseInt_def is_space_def digit_of_def digits_value_def Let_def)
qed

section \<open>Cache: the claims\<close>

text \<open>
  C5, at the key \<^verbatim>\<open>constructor\<close>: the key is not in the TTL table, so the claim gives it
  the fallback TTL of 5000 ms and an absent read after \<open>t0 + 5000\<close>. The code reads
  \<^verbatim>\<open>this.TTL['constructor']\<close> as the inherited constructor function, stores an expiry
  that is not a number, and returns the payload at \<open>t0 + 5001\<close> and at every other time
  \<open>t\<close>. For an ordinary key outside the table, such as \<^verbatim>\<open>winners\<close>, the fallback works
  and the read at \<open>t0 + 5001\<close> is absent.
\<close>

theorem cache_inherited_key_never_expires:
  "fst (cache_get ''constructor'' (t0 + 5001) (cache_set ''constructor'' p v t0 t0' c)) = Some p
   \<and> fst (cache_get ''constructor'' t (cache_set ''constructor'' p v t0 t0' c)) = Some p
   \<and> fst (cache_get ''winners'' (t0 + 5000) (cache_set ''winners'' p v t0 t0' c)) = Some p
   \<and> fst (cache_get ''winners'' (t0 + 5001) (cache_set ''winners'' p v t0 t0' c)) = None"
proof -
  have inherited: "ttl_for ''constructor'' = NonNumeric"
    by (rule ttl_for_inherited) (simp add: Object_prototype_keys_def)
  have plain: "ttl_for ''winners'' = Millis 5000"
    by (rule ttl_for_plain) (simp_all add: TTL_def Object_prototype_keys_def)
  show ?thesis
    by (simp add: cache_get_def cache_set_def inherited plain plus_ttl_def past_def)
qed

text \<open>
  C9: after \<open>invalidate k\<close>, and after any further operations that do not set \<open>k\<close>
  (reads, sets and invalidations of other keys, reads of \<open>k\<close>, sweeps), a read of \<open>k\<close> at
  any time is absent, whatever entry the cache held for \<open>k\<close> before and whatever its
  remaining TTL.
\<close>

theorem invalidate_then_get_absent:
  "no_set_on k ops \<Longrightarrow> fst (cache_get k t (cache_run ops (invalidate k c))) = None"
proof -
  assume "no_set_on k ops"
  moreover have "cache (invalidate k c) k = None"
    by (simp add: invalidate_def)
  ultimately have "cache (cache_run ops (invalidate k c)) k = None"
    by (rule cache_run_absent)
  then show ?thesis
    by (simp add: cache_get_def)
qed

theorem invalidate_then_get_absent_witness:
  "no_set_on ''raffles'' [SetEntry ''rules'' (7::nat) 1 10 10, Get ''raffles'' 20, Cleanup 30]
   \<and> cache_get ''raffles'' 5 (cache_set ''raffles'' (7::nat) 1 0 0 new_DataCache)
       = (Some 7, cache_set ''raffles'' 7 1 0 0 new_DataCache)
   \<and> fst (cache_get ''raffles'' 5
       (cache_run [SetEntry ''rules'' 7 1 10 10, Get ''raffles'' 20, Cleanup 30]
          (invalidate ''raffles'' (cache_set ''raffles'' (7::nat) 1 0 0 new_DataCache)))) = None"
proof -
  have h: "no_set_on ''raffles'' [SetEntry ''rules'' (7::nat) 1 10 10, Get ''raffles'' 20, Cleanup 30]"
    by simp
  have live: "cache_get ''raffles'' 5 (cache_set ''raffles'' (7::nat) 1 0 0 new_DataCache)
       = (Some 7, cache_set ''raffles'' 7 1 0 0 new_DataCache)"
    by (rule cache_ttl_ordinary_key(1) [where T = 30000])
       (simp_all add: Object_prototype_keys_def TTL_def)
  from invalidate_then_get_absent [OF h] h live show ?thesis
    by blast
qed

section \<open>Hub: the claims\<close>

text \<open>
  C1: a broadcast to a live set of \<open>N\<close> connections of which \<open>M\<close> throw on
  \<^verbatim>\<open>write\<close> leaves exactly the connections that did not throw, \<open>N - M\<close> of them, in
  their order; each of them has accepted, as its newest chunk, the frame of the named
  event: the line \<^verbatim>\<open>event: \<close> with the event name, the line \<^verbatim>\<open>data: \<close> with the
  JSON text of the data, and an empty line; and \<^verbatim>\<open>write\<close> was called with that frame
  on every connection of the live set, the failing ones and those after them included.
  Connections outside the live set are not touched.
\<close>

theorem broadcast_delivery:
  assumes "distinct (clients h)"
  shows "(let frame = ''event: '' @ ev @ [CHR 0x0A] @ ''data: '' @ JSON_stringify dat
                        @ [CHR 0x0A, CHR 0x0A]
          in clients (broadcast ev dat h)
               = filter (\<lambda>c. \<not> write_throws (channels h c)) (clients h)
           \<and> length (clients (broadcast ev dat h))
               = length (clients h)
                   - length (filter (\<lambda>c. write_throws (channels h c)) (clients h))
           \<and> (\<forall>c \<in> set (clients (broadcast ev dat h)).
                 written (channels (broadcast ev dat h) c) = written (channels h c) @ [frame])
           \<and> (\<forall>c \<in> set (clients h).
                 write_calls (channels (broadcast ev dat h) c)
                   = write_calls (channels h c) @ [frame])
           \<and> (\<forall>c. c \<notin> set (clients h) \<longrightarrow> channels (broadcast ev dat h) c = channels h c))"
proof -
  let ?bad = "\<lambda>c. write_throws (channels h c)"
  have len: "length (filter (\<lambda>c. \<not> ?bad c) (clients h))
      = length (clients h) - length (filter ?bad (clients h))"
    using sum_length_filter_compl [of ?bad "clients h"] by simp
  have frame: "event_frame ev dat
      = ''event: '' @ ev @ [CHR 0x0A] @ ''data: '' @ JSON_stringify dat @ [CHR 0x0A, CHR 0x0A]"
    by (simp add: event_frame_def LF_def)
  show ?thesis
    unfolding Let_def frame [symmetric]
    by (simp add: broadcast_eq [OF assms] len)
qed

theorem broadcast_delivery_witness:
  "distinct (clients two_clients)
   \<and> clients (broadcast ''update'' (update_data ''raffles'' 3) two_clients) = [2]
   \<and> written (channels (broadcast ''update'' (update_data ''raffles'' 3) two_clients) 2)
       = [''event: update'' @ [CHR 0x0A]
          @ ''data: {'' @ [CHR 0x22] @ ''type'' @ [CHR 0x22] @ '':'' @ [CHR 0x22] @ ''raffles''
          @ [CHR 0x22] @ '','' @ [CHR 0x22] @ ''version'' @ [CHR 0x22] @ '':3}''
          @ [CHR 0x0A, CHR 0x0A]]
   \<and> write_calls (channels (broadcast ''update'' (update_data ''raffles'' 3) two_clients) 1)
       = [''event: update'' @ [CHR 0x0A]
          @ ''data: {'' @ [CHR 0x22] @ ''type'' @ [CHR 0x22] @ '':'' @ [CHR 0x22] @ ''raffles''
          @ [CHR 0x22] @ '','' @ [CHR 0x22] @ ''version'' @ [CHR 0x22] @ '':3}''
          @ [CHR 0x0A, CHR 0x0A]]
   \<and> written (channels (broadcast ''update'' (update_data ''raffles'' 3) two_clients) 1) = []"
proof -
  have d: "distinct (clients two_clients)"
    by (simp add: two_clients_def)
  have three: "digits_of_nat 3 = ''3''"
    by code_simp
  have json: "JSON_stringify (update_data ''raffles'' 3)
      = ''{'' @ [CHR 0x22] @ ''type'' @ [CHR 0x22] @ '':'' @ [CHR 0x22] @ ''raffles''
          @ [CHR 0x22] @ '','' @ [CHR 0x22] @ ''version'' @ [CHR 0x22] @ '':3}''"
    by (simp add: JSON_stringify_def update_data_def quote_string_def quote_char_def
        Number_toString_small three)
  have bad: "written (channels (broadcast ''update'' (update_data ''raffles'' 3) two_clients) 1) = []"
    by (simp add: broadcast_eq [OF d]) (simp add: two_clients_def)
  from broadcast_delivery [OF d, of "''update''" "update_data ''raffles'' 3"] d bad
  show ?thesis
    unfolding Let_def json by (simp add: two_clients_def)
qed

text \<open>
  C4, as amended: at or above capacity \<^verbatim>\<open>addClient\<close> returns false and changes
  nothing. Below capacity, when the handshake does not throw (the response has sent no
  headers yet and takes the write), it returns true; the response has the status 200 with
  the five stream headers and the heartbeat frame, a colon and an empty line, as its
  newest chunk; it is in the live set, and a later \<^verbatim>\<open>close\<close> or \<^verbatim>\<open>error\<close> event
  removes it. After as many distinct connections as the capacity have been admitted to an
  empty hub, every further attempt is rejected and the count stays at the capacity. The
  constructor sets the capacity to 2000.
\<close>

theorem addClient_capacity:
  "(maxConnections h \<le> length (clients h) \<longrightarrow> addClient res h = (Returned False, h))
   \<and> (length (clients h) < maxConnections h \<and> head_sent (channels h res) = None
        \<and> \<not> write_throws (channels h res) \<longrightarrow>
        fst (addClient res h) = Returned True
        \<and> clients (snd (addClient res h)) = set_add res (clients h)
        \<and> res \<in> set (clients (snd (addClient res h)))
        \<and> head_sent (channels (snd (addClient res h)) res)
            = Some (200, [(''Content-Type'', ''text/event-stream''),
                          (''Cache-Control'', ''no-cache''),
                          (''Connection'', ''keep-alive''),
                          (''X-Accel-Buffering'', ''no''),
                          (''Access-Control-Allow-Origin'', ''*'')])
        \<and> written (channels (snd (addClient res h)) res)
            = written (channels h res) @ [[CHR '':'', CHR 0x0A, CHR 0x0A]]
        \<and> res \<notin> set (clients (emit res ''close'' (snd (addClient res h))))
        \<and> res \<notin> set (clients (emit res ''error'' (snd (addClient res h)))))
   \<and> (clients h = [] \<and> distinct rs \<and> length rs = maxConnections h
        \<and> (\<forall>r \<in> set rs. head_sent (channels h r) = None \<and> \<not> write_throws (channels h r)) \<longrightarrow>
        fst (admit_all rs h) = replicate (maxConnections h) (Returned True)
        \<and> getClientCount (snd (admit_all rs h)) = maxConnections h
        \<and> addClient res (snd (admit_all rs h)) = (Returned False, snd (admit_all rs h))
        \<and> getClientCount (snd (addClient res (snd (admit_all rs h)))) = maxConnections h)
   \<and> maxConnections (new_SSEManager heap) = 2000"
proof (intro conjI impI)
  assume "maxConnections h \<le> length (clients h)"
  then show "addClient res h = (Returned False, h)"
    by (rule addClient_rejects)
next
  assume a: "length (clients h) < maxConnections h \<and> head_sent (channels h res) = None
      \<and> \<not> write_throws (channels h res)"
  note acc = addClient_accepts [of h res]
  from a show "fst (addClient res h) = Returned True" by (simp add: acc)
  from a show "clients (snd (addClient res h)) = set_add res (clients h)" by (simp add: acc)
  from a show "res \<in> set (clients (snd (addClient res h)))" by (simp add: acc set_add_def)
  from a show "head_sent (channels (snd (addClient res h)) res)
            = Some (200, [(''Content-Type'', ''text/event-stream''),
                          (''Cache-Control'', ''no-cache''),
                          (''Connection'', ''keep-alive''),
                          (''X-Accel-Buffering'', ''no''),
                          (''Access-Control-Allow-Origin'', ''*'')])"
    by (simp add: acc sse_headers_def)
  from a show "written (channels (snd (addClient res h)) res)
      = written (channels h res) @ [[CHR '':'', CHR 0x0A, CHR 0x0A]]"
    by (simp add: acc heartbeat_frame_def LF_def)
  from a show "res \<notin> set (clients (emit res ''close'' (snd (addClient res h))))"
    by (simp add: acc emit_def set_delete_notin)
  from a show "res \<notin> set (clients (emit res ''error'' (snd (addClient res h))))"
    by (simp add: acc emit_def set_delete_notin)
next
  assume a: "clients h = [] \<and> distinct rs \<and> length rs = maxConnections h
        \<and> (\<forall>r \<in> set rs. head_sent (channels h r) = None \<and> \<not> write_throws (channels h r))"
  then have all: "fst (admit_all rs h) = replicate (length rs) (Returned True) \<and>
      clients (snd (admit_all rs h)) = clients h @ rs \<and>
      maxConnections (snd (admit_all rs h)) = maxConnections h"
    by (intro admit_all_fresh) auto
  from all a show "fst (admit_all rs h) = replicate (maxConnections h) (Returned True)"
    by simp
  from all a show cnt: "getClientCount (snd (admit_all rs h)) = maxConnections h"
    by (simp add: getClientCount_def)
  from all a show rej: "addClient res (snd (admit_all rs h)) = (Returned False, snd (admit_all rs h))"
    by (intro addClient_rejects) simp
  from rej cnt show "getClientCount (snd (addClient res (snd (admit_all rs h)))) = maxConnections h"
    by simp
next
  show "maxConnections (new_SSEManager heap) = 2000"
    by (simp add: new_SSEManager_def)
qed

theorem addClient_capacity_witness:
  "fst (admit_all [1, 2] small_hub) = [Returned True, Returned True]
   \<and> getClientCount (snd (admit_all [1, 2] small_hub)) = 2
   \<and> maxConnections (snd (admit_all [1, 2] small_hub))
       \<le> length (clients (snd (admit_all [1, 2] small_hub)))
   \<and> addClient 3 (snd (admit_all [1, 2] small_hub))
       = (Returned False, snd (admit_all [1, 2] small_hub))
   \<and> getClientCount (snd (addClient 3 (snd (admit_all [1, 2] small_hub)))) = 2
   \<and> length (clients small_hub) < maxConnections small_hub
   \<and> head_sent (channels small_hub 3) = None
   \<and> \<not> write_throws (channels small_hub 3)
   \<and> fst (addClient 3 small_hub) = Returned True
   \<and> clients (snd (addClient 3 small_hub)) = [3]
   \<and> written (channels (snd (addClient 3 small_hub)) 3) = [[CHR '':'', CHR 0x0A, CHR 0x0A]]
   \<and> clients (emit 3 ''close'' (snd (addClient 3 small_hub))) = []"
proof -
  have pre: "clients small_hub = [] \<and> distinct [1, 2::nat] \<and> length [1, 2::nat] = maxConnections small_hub
      \<and> (\<forall>r \<in> set [1, 2]. head_sent (channels small_hub r) = None
            \<and> \<not> write_throws (channels small_hub r))"
    by (simp add: small_hub_def new_SSEManager_def fresh_channel_def)
  have pre2: "length (clients small_hub) < maxConnections small_hub
      \<and> head_sent (channels small_hub 3) = None \<and> \<not> write_throws (channels small_hub 3)"
    by (simp add: small_hub_def new_SSEManager_def fresh_channel_def)
  have mx: "maxConnections small_hub = 2" and cl: "clients small_hub = []"
    and wr: "written (channels small_hub 3) = []"
    by (simp_all add: small_hub_def new_SSEManager_def fresh_channel_def)
  have af: "clients (snd (admit_all [1, 2] small_hub)) = [1, 2]
      \<and> maxConnections (snd (admit_all [1, 2] small_hub)) = 2"
    using admit_all_fresh [of "[1, 2]" small_hub] pre
    by (simp add: mx cl del: admit_all.simps)
  then have cap: "maxConnections (snd (admit_all [1, 2] small_hub))
       \<le> length (clients (snd (admit_all [1, 2] small_hub)))"
    by (simp del: admit_all.simps)
  have gone: "clients (emit 3 ''close'' (snd (addClient 3 small_hub))) = []"
    by (simp add: set_add_def emit_def set_delete_def addClient_def ch_write_def
        writeHead_def Let_def small_hub_def new_SSEManager_def fresh_channel_def)
  from addClient_capacity [of small_hub 3 "[1, 2]"]
    addClient_capacity [of "snd (admit_all [1, 2] small_hub)" 3 "[]"]
    pre pre2 cap gone
  show ?thesis
    by (simp add: mx cl wr set_add_def numeral_2_eq_2 del: admit_all.simps)
qed

text \<open>
  C4 as stated fails: on an empty hub of capacity 2000, far below the ceiling, a response
  whose \<^verbatim>\<open>write\<close> throws is not admitted. \<^verbatim>\<open>addClient\<close> has no handler for
  the exception: it does not return true, the live set stays empty and no
  \<^verbatim>\<open>close\<close> or \<^verbatim>\<open>error\<close> handler is registered. The same happens with a response
  that has sent its headers already, where \<^verbatim>\<open>writeHead\<close> throws.
\<close>

theorem addClient_capacity_counterexample:
  "length (clients broken_hub) < maxConnections broken_hub
   \<and> fst (addClient 7 broken_hub) = Threw
   \<and> fst (addClient 7 broken_hub) \<noteq> Returned True
   \<and> clients (snd (addClient 7 broken_hub)) = []
   \<and> listeners (channels (snd (addClient 7 broken_hub)) 7) = []
   \<and> fst (addClient 3 (snd (addClient 3 small_hub))) = Threw
   \<and> clients (snd (addClient 3 (snd (addClient 3 small_hub)))) = [3]"
  by (simp add: broken_hub_def small_hub_def new_SSEManager_def fresh_channel_def addClient_def
      writeHead_def ch_write_def set_add_def Let_def)

section \<open>Database module: the claims\<close>

text \<open>
  C2: in every state the module reaches from its load, by any sequence of events, at most
  one write is in progress. A call of \<^verbatim>\<open>saveDatabase\<close> during a write changes
  nothing but \<^verbatim>\<open>pendingWrite\<close> (set when the database is open) and starts no write.
  When a write settles with \<^verbatim>\<open>pendingWrite\<close> set, the flag is cleared, no write is in
  progress and exactly one \<^verbatim>\<open>saveDatabase\<close> call is queued; when that call runs on
  the open database it starts exactly one write. When a write settles with the flag
  clear, nothing is queued.
\<close>

theorem single_flight_discipline:
  fixes es :: "'d event list" and blank :: 'd
  defines "s \<equiv> exec es (module_loaded blank)"
  shows "writes_active s \<le> 1
    \<and> (isWriting s \<longrightarrow>
          saveDatabase s
            = s\<lparr>save_calls := Suc (save_calls s), pendingWrite := (pendingWrite s \<or> db_open s)\<rparr>
          \<and> writes_started (saveDatabase s) = writes_started s
          \<and> writes_active (saveDatabase s) = writes_active s)
    \<and> (isWriting s \<and> pendingWrite s \<longrightarrow>
          \<not> pendingWrite (write_settles s) \<and> \<not> isWriting (write_settles s)
          \<and> writes_active (write_settles s) = 0
          \<and> writes_started (write_settles s) = writes_started s
          \<and> immediates (write_settles s) = Suc (immediates s)
          \<and> (db_open s \<longrightarrow>
                writes_started (immediate_runs (write_settles s)) = Suc (writes_started s)
                \<and> writes_active (immediate_runs (write_settles s)) = 1
                \<and> immediates (immediate_runs (write_settles s)) = immediates s))
    \<and> (isWriting s \<and> \<not> pendingWrite s \<longrightarrow>
          write_settles s = s\<lparr>isWriting := False, writes_active := 0\<rparr>)"
proof -
  have sf: "single_flight s"
    unfolding s_def by (rule sf_exec) (rule sf_module_loaded)
  then have act: "writes_active s = (if isWriting s then 1 else 0)"
    by (simp add: single_flight_def)
  have one: "writes_active s \<le> 1"
    by (simp add: act)
  have busy: "isWriting s \<longrightarrow>
          saveDatabase s
            = s\<lparr>save_calls := Suc (save_calls s), pendingWrite := (pendingWrite s \<or> db_open s)\<rparr>
          \<and> writes_started (saveDatabase s) = writes_started s
          \<and> writes_active (saveDatabase s) = writes_active s"
    by (cases "db_open s") (simp_all add: saveDatabase_def Let_def)
  have pend: "isWriting s \<and> pendingWrite s \<longrightarrow>
          \<not> pendingWrite (write_settles s) \<and> \<not> isWriting (write_settles s)
          \<and> writes_active (write_settles s) = 0
          \<and> writes_started (write_settles s) = writes_started s
          \<and> immediates (write_settles s) = Suc (immediates s)
          \<and> (db_open s \<longrightarrow>
                writes_started (immediate_runs (write_settles s)) = Suc (writes_started s)
                \<and> writes_active (immediate_runs (write_settles s)) = 1
                \<and> immediates (immediate_runs (write_settles s)) = immediates s)"
    using act by (simp add: write_settles_def immediate_runs_def saveDatabase_def Let_def)
  have nopend: "isWriting s \<and> \<not> pendingWrite s \<longrightarrow>
          write_settles s = s\<lparr>isWriting := False, writes_active := 0\<rparr>"
    using act by (simp add: write_settles_def Let_def)
  from one busy pend nopend show ?thesis
    by blast
qed

theorem single_flight_discipline_witness:
  "isWriting (exec two_requests (module_loaded ()))
   \<and> pendingWrite (exec two_requests (module_loaded ()))
   \<and> db_open (exec two_requests (module_loaded ()))
   \<and> writes_active (exec two_requests (module_loaded ())) = 1
   \<and> writes_active (saveDatabase (exec two_requests (module_loaded ()))) = 1
   \<and> writes_active (write_settles (exec two_requests (module_loaded ()))) = 0
   \<and> immediates (write_settles (exec two_requests (module_loaded ()))) = 1
   \<and> writes_active (immediate_runs (write_settles (exec two_requests (module_loaded ())))) = 1
   \<and> writes_started (immediate_runs (write_settles (exec two_requests (module_loaded ())))) = 2
   \<and> isWriting (exec one_request (module_loaded ()))
   \<and> \<not> pendingWrite (exec one_request (module_loaded ()))
   \<and> \<not> isWriting (write_settles (exec one_request (module_loaded ())))
   \<and> immediates (write_settles (exec one_request (module_loaded ()))) = 0"
proof -
  have st: "isWriting (exec two_requests (module_loaded ()))
      \<and> pendingWrite (exec two_requests (module_loaded ()))
      \<and> db_open (exec two_requests (module_loaded ()))
      \<and> writes_active (exec two_requests (module_loaded ())) = 1
      \<and> writes_started (exec two_requests (module_loaded ())) = 1
      \<and> immediates (exec two_requests (module_loaded ())) = 0"
    by (simp add: two_requests_def empty_tables_def module_loaded_def initDb_def
        scheduleSave_def saveDatabase_def Let_def)
  have st1: "isWriting (exec one_request (module_loaded ()))
      \<and> \<not> pendingWrite (exec one_request (module_loaded ()))
      \<and> immediates (exec one_request (module_loaded ())) = 0"
    by (simp add: one_request_def empty_tables_def module_loaded_def initDb_def
        scheduleSave_def saveDatabase_def Let_def)
  from single_flight_discipline [of two_requests "()"]
    single_flight_discipline [of one_request "()"] st st1
  show ?thesis
    by simp
qed

text \<open>
  C3: start with no timeout armed and let \<open>K\<close> mutations call \<^verbatim>\<open>scheduleSave\<close> at the
  times \<open>t # ts\<close>. If each is less than 1000 ms after the one before, \<^verbatim>\<open>saveDatabase\<close>
  has been called by the timer not at all before 1000 ms after the last mutation and
  exactly once from then on, and after that no timeout is armed; with the database open
  and no write in progress that one call starts one write. If each mutation is more than
  1000 ms after the one before, the timer has called \<^verbatim>\<open>saveDatabase\<close> exactly \<open>K\<close>
  times once 1000 ms have passed after the last one; and when every write settles before
  the next mutation, each of these calls starts a write, \<open>K\<close> writes in all.
\<close>

theorem debounce_flush_count:
  assumes "timers s = []" and "clock s \<le> t"
  shows "(within_window t ts \<longrightarrow>
            save_calls (advance T (mutations (t # ts) s))
              = save_calls s + (if last (t # ts) + 1000 \<le> T then 1 else 0)
            \<and> timers (advance (last (t # ts) + 1000) (mutations (t # ts) s)) = []
            \<and> (db_open s \<and> \<not> isWriting s \<longrightarrow>
                 writes_started (advance T (mutations (t # ts) s))
                   = writes_started s + (if last (t # ts) + 1000 \<le> T then 1 else 0)))
      \<and> (spaced t ts \<and> last (t # ts) + 1000 \<le> T \<longrightarrow>
            save_calls (advance T (mutations (t # ts) s)) = save_calls s + length (t # ts)
            \<and> timers (advance T (mutations (t # ts) s)) = []
            \<and> (idle_open s \<longrightarrow>
                 writes_started (advance T (mutations_settled (t # ts) s))
                   = writes_started s + length (t # ts)))"
proof -
  define L where "L = last (t # ts)"
  have burst: "save_calls (advance T (mutations (t # ts) s))
        = save_calls s + (if L + 1000 \<le> T then 1 else 0)
      \<and> timers (advance (L + 1000) (mutations (t # ts) s)) = []
      \<and> (db_open s \<and> \<not> isWriting s \<longrightarrow>
           writes_started (advance T (mutations (t # ts) s))
             = writes_started s + (if L + 1000 \<le> T then 1 else 0))"
    if w: "within_window t ts"
  proof -
    from burst_first [OF assms w]
    obtain h' n where m: "mutations (t # ts) s
       = s\<lparr>clock := L, timers := [(h', L + 1000)], saveTimeout := Some h', next_handle := n\<rparr>"
      unfolding L_def by auto
    let ?m = "s\<lparr>clock := L, timers := [(h', L + 1000)], saveTimeout := Some h', next_handle := n\<rparr>"
    have arm: "armed ?m (L + 1000)"
      by (simp add: armed_def)
    have fire: "advance T' ?m = saveDatabase (?m\<lparr>clock := max (clock ?m) T', timers := []\<rparr>)"
      if "L + 1000 \<le> T'" for T'
      using advance_due [OF arm that] .
    have wait: "advance T' ?m = ?m\<lparr>clock := max (clock ?m) T'\<rparr>"
      if "\<not> L + 1000 \<le> T'" for T'
      using advance_not_due [OF arm, of T'] that by simp
    have c1: "save_calls (advance T (mutations (t # ts) s))
        = save_calls s + (if L + 1000 \<le> T then 1 else 0)"
      unfolding m by (cases "L + 1000 \<le> T") (simp_all add: fire wait)
    have c2: "timers (advance (L + 1000) (mutations (t # ts) s)) = []"
      unfolding m by (simp add: fire)
    have c3: "writes_started (advance T (mutations (t # ts) s))
        = writes_started s + (if L + 1000 \<le> T then 1 else 0)"
      if "db_open s \<and> \<not> isWriting s"
      unfolding m using that
      by (cases "L + 1000 \<le> T") (simp_all add: fire wait saveDatabase_def Let_def)
    from c1 c2 c3 show ?thesis by blast
  qed
  have settled: "writes_started (advance T (mutations_settled (t # ts) s))
        = writes_started s + length (t # ts)"
    if "spaced t ts" and "L + 1000 \<le> T" and "idle_open s"
    using that spaced_settled_writes [OF assms, of ts T] by (simp add: L_def)
  have apart: "save_calls (advance T (mutations (t # ts) s)) = save_calls s + length (t # ts)
      \<and> timers (advance T (mutations (t # ts) s)) = []"
    if sp: "spaced t ts" and T: "L + 1000 \<le> T"
  proof -
    from spaced_first [OF assms sp]
    obtain h' where tm: "timers (mutations (t # ts) s) = [(h', L + 1000)]"
      and st: "saveTimeout (mutations (t # ts) s) = Some h'"
      and calls: "save_calls (mutations (t # ts) s) = save_calls s + length ts"
      unfolding L_def by auto
    have arm: "armed (mutations (t # ts) s) (L + 1000)"
      using tm st by (simp add: armed_def)
    note fire = advance_due [OF arm T]
    show ?thesis
      unfolding fire by (simp add: calls del: mutations.simps)
  qed
  from burst apart settled show ?thesis
    unfolding L_def by blast
qed

theorem debounce_flush_count_witness:
  "timers (module_loaded ()) = [] \<and> clock (module_loaded ()) \<le> 0
   \<and> within_window 0 [200, 400]
   \<and> save_calls (advance 1399 (mutations [0, 200, 400] (module_loaded ()))) = 0
   \<and> save_calls (advance 1400 (mutations [0, 200, 400] (module_loaded ()))) = 1
   \<and> spaced 0 [1500, 3100]
   \<and> save_calls (advance 4100 (mutations [0, 1500, 3100] (module_loaded ()))) = 3
   \<and> timers settled_start = [] \<and> clock settled_start \<le> 2000 \<and> idle_open settled_start
   \<and> spaced 2000 [3600, 5200]
   \<and> writes_started settled_start = 1
   \<and> writes_started (advance 6200 (mutations_settled [2000, 3600, 5200] settled_start)) = 4
   \<and> db_open settled_start \<and> \<not> isWriting settled_start
   \<and> within_window 2000 [2100, 2900]
   \<and> writes_started (advance 3899 (mutations [2000, 2100, 2900] settled_start)) = 1
   \<and> writes_started (advance 3900 (mutations [2000, 2100, 2900] settled_start)) = 2"
proof -
  have pre: "timers (module_loaded ()) = []" "clock (module_loaded ()) \<le> 0"
    by (simp_all add: module_loaded_def)
  have calls: "save_calls (module_loaded ()) = 0"
    by (simp add: module_loaded_def)
  have w: "within_window 0 [200, 400]" and sp: "spaced 0 [1500, 3100]"
    and sp': "spaced 2000 [3600, 5200]"
    by simp_all
  have pre': "timers settled_start = []" "clock settled_start \<le> 2000"
    and idle: "idle_open settled_start" and one: "writes_started settled_start = 1"
    by (simp_all add: settled_start_def fresh_database_def initDb_def module_loaded_def
        scheduleSave_def advance_def saveDatabase_def write_settles_def idle_open_def Let_def)
  have op: "db_open settled_start \<and> \<not> isWriting settled_start"
    using idle by (simp add: idle_open_def)
  have w': "within_window 2000 [2100, 2900]"
    by simp
  from debounce_flush_count [OF pre, of "[200, 400]" 1399]
       debounce_flush_count [OF pre, of "[200, 400]" 1400]
       debounce_flush_count [OF pre, of "[1500, 3100]" 4100]
       debounce_flush_count [OF pre', of "[3600, 5200]" 6200]
       debounce_flush_count [OF pre', of "[2100, 2900]" 3899]
       debounce_flush_count [OF pre', of "[2100, 2900]" 3900]
       pre w sp calls pre' idle sp' one op w'
  show ?thesis
    by simp
qed

section \<open>Version counters: the claims\<close>

text \<open>
  C6: for a key \<open>d\<close> that has a row in \<^verbatim>\<open>data_versions\<close>, with the database open
  and the counter \<open>v\<close> and its successors within the whole numbers a double holds
  exactly (from \<open>- 2 ^ 53\<close> to \<open>2 ^ 53\<close>; the counter starts at 0 and would need
  \<open>2 ^ 53\<close> increments to leave that range), \<^verbatim>\<open>bumpVersion\<close> returns the stored
  counter plus one, stores that value and leaves every other counter alone. Within one
  session of the database, that is across any run of events that does not close it (what
  a later \<^verbatim>\<open>initDb\<close> loads is the file it finds, not this counter), the stored
  counter is its old value plus the number of \<^verbatim>\<open>bumpVersion\<close> calls for \<open>d\<close> in the
  run, so it never decreases and no increment is lost whatever is interleaved. The calls
  are synchronous, so concurrent callers run one after the other: \<open>n\<close> calls return
  \<open>v + 1, \<dots>, v + n\<close>, all different, and leave \<open>v + n\<close>.
\<close>

theorem version_increment:
  assumes "db_open s" and "data_versions (tables s) d = Some (v, u)" and "- (2 ^ 53) \<le> v"
  shows "(v + 1 \<le> 2 ^ 53 \<longrightarrow>
            fst (bumpVersion d at s) = Returned (v + 1)
            \<and> stored_version (snd (bumpVersion d at s)) d = Some (v + 1))
    \<and> (\<forall>k. k \<noteq> d \<longrightarrow> stored_version (snd (bumpVersion d at s)) k = stored_version s k)
    \<and> (initialized s \<and> list_all (\<lambda>e. \<not> is_close e) es
          \<and> v + int (count_bumps d es) \<le> 2 ^ 53 \<longrightarrow>
          stored_version (exec es s) d = Some (v + int (count_bumps d es))
          \<and> v \<le> v + int (count_bumps d es))
    \<and> (v + int (length ats) \<le> 2 ^ 53 \<longrightarrow>
          fst (bump_many d ats s) = map (\<lambda>i. Returned (v + 1 + int i)) [0..<length ats]
          \<and> distinct (fst (bump_many d ats s))
          \<and> stored_version (snd (bump_many d ats s)) d = Some (v + int (length ats)))"
proof -
  have sv: "stored_version s d = Some v"
    using assms by (simp add: stored_version_def)
  have one: "v + 1 \<le> 2 ^ 53 \<longrightarrow>
            fst (bumpVersion d at s) = Returned (v + 1)
            \<and> stored_version (snd (bumpVersion d at s)) d = Some (v + 1)"
  proof
    assume hi: "v + 1 \<le> 2 ^ 53"
    have sp: "sqlite_plus_one v = v + 1"
      by (rule sqlite_plus_one_exact [OF assms(3) hi])
    have td: "to_double (sqlite_plus_one v) = v + 1"
      by (rule read_back_exact [OF assms(3) hi])
    have "fst (bumpVersion d at s) = Returned (v + 1)"
      by (simp only: bumpVersion_row [OF assms(1,2)] td fst_conv)
    moreover have "stored_version (snd (bumpVersion d at s)) d = Some (v + 1)"
      using assms(1) by (simp add: bumpVersion_versions sv sp)
    ultimately show "fst (bumpVersion d at s) = Returned (v + 1)
            \<and> stored_version (snd (bumpVersion d at s)) d = Some (v + 1)"
      by simp
  qed
  have others: "\<forall>k. k \<noteq> d \<longrightarrow> stored_version (snd (bumpVersion d at s)) k = stored_version s k"
    by (simp add: bumpVersion_versions)
  have seq: "initialized s \<and> list_all (\<lambda>e. \<not> is_close e) es
          \<and> v + int (count_bumps d es) \<le> 2 ^ 53 \<longrightarrow>
          stored_version (exec es s) d = Some (v + int (count_bumps d es))
          \<and> v \<le> v + int (count_bumps d es)"
  proof
    assume a: "initialized s \<and> list_all (\<lambda>e. \<not> is_close e) es
          \<and> v + int (count_bumps d es) \<le> 2 ^ 53"
    then have fp: "(sqlite_plus_one ^^ count_bumps d es) v = v + int (count_bumps d es)"
      by (intro sqlite_plus_one_funpow [OF assms(3)]) simp
    from a have "stored_version (exec es s) d
        = map_option (sqlite_plus_one ^^ count_bumps d es) (stored_version s d)"
      using assms(1) by (intro exec_versions) simp_all
    then show "stored_version (exec es s) d = Some (v + int (count_bumps d es))
          \<and> v \<le> v + int (count_bumps d es)"
      by (simp only: sv fp option.map) simp
  qed
  have many: "v + int (length ats) \<le> 2 ^ 53 \<longrightarrow>
          fst (bump_many d ats s) = map (\<lambda>i. Returned (v + 1 + int i)) [0..<length ats]
          \<and> distinct (fst (bump_many d ats s))
          \<and> stored_version (snd (bump_many d ats s)) d = Some (v + int (length ats))"
  proof
    assume hi: "v + int (length ats) \<le> 2 ^ 53"
    note m = bump_many_row [OF assms hi]
    have inj: "inj_on (\<lambda>i. Returned (v + 1 + int i) :: int outcome) {0..<length ats}"
      by (rule inj_onI) simp
    have "distinct (fst (bump_many d ats s))"
      using m inj by (simp add: distinct_map)
    with m show "fst (bump_many d ats s) = map (\<lambda>i. Returned (v + 1 + int i)) [0..<length ats]
          \<and> distinct (fst (bump_many d ats s))
          \<and> stored_version (snd (bump_many d ats s)) d = Some (v + int (length ats))"
      by simp
  qed
  from one others seq many show ?thesis
    by blast
qed

theorem version_increment_witness:
  "db_open (fresh_database () ''t0'')
   \<and> data_versions (tables (fresh_database () ''t0'')) ''raffles'' = Some (0, ''t0'')
   \<and> - (2 ^ 53) \<le> (0::int) \<and> (0::int) + 1 \<le> 2 ^ 53
   \<and> fst (bumpVersion ''raffles'' ''t1'' (fresh_database () ''t0'')) = Returned 1
   \<and> stored_version (snd (bumpVersion ''raffles'' ''t1'' (fresh_database () ''t0''))) ''raffles''
       = Some 1
   \<and> initialized (fresh_database () ''t0'') \<and> list_all (\<lambda>e. \<not> is_close e) busy_day
   \<and> stored_version (exec busy_day (fresh_database () ''t0'')) ''raffles'' = Some 2
   \<and> fst (bump_many ''raffles'' [''t1'', ''t2'', ''t3''] (fresh_database () ''t0''))
       = [Returned 1, Returned 2, Returned 3]"
proof -
  have pre: "db_open (fresh_database () ''t0'')"
    "data_versions (tables (fresh_database () ''t0'')) ''raffles'' = Some (0, ''t0'')"
    "initialized (fresh_database () ''t0'')"
    by (simp_all add: fresh_database_def initDb_def module_loaded_def schema_sql_def
        insert_or_ignore_def)
  have lo: "- (2 ^ 53) \<le> (0::int)"
    by simp
  have evs: "list_all (\<lambda>e. \<not> is_close e) busy_day" "count_bumps ''raffles'' busy_day = 2"
    by (simp_all add: busy_day_def count_bumps_def)
  have up: "[0..<length [''t1'', ''t2'', ''t3'']] = [0, 1, 2]"
    by (simp add: upt_rec)
  from version_increment [OF pre(1,2) lo, of "''t1''" busy_day "[''t1'', ''t2'', ''t3'']"] pre evs
  show ?thesis
    by (simp add: up)
qed

text \<open>
  C10: for a key with no row in \<^verbatim>\<open>data_versions\<close>, \<^verbatim>\<open>bumpVersion\<close> on the open
  database returns 0 and leaves all tables as they were. In any state \<^verbatim>\<open>bumpVersion\<close>
  leaves the set of keys that have a row unchanged, and in every state reached from a
  fresh database that has not been closed the rows are those of the three keys the schema
  inserts.
\<close>

theorem increment_unregistered:
  "(db_open s \<and> data_versions (tables s) d = None \<longrightarrow>
      fst (bumpVersion d at s) = Returned 0
      \<and> tables (snd (bumpVersion d at s)) = tables s)
   \<and> dom (data_versions (tables (snd (bumpVersion d at s)))) = dom (data_versions (tables s))
   \<and> (list_all (\<lambda>e. \<not> is_close e) es \<longrightarrow>
        dom (data_versions (tables (exec es (fresh_database blank at0))))
          = {''raffles'', ''rules'', ''sponsors''})"
proof -
  have none: "db_open s \<and> data_versions (tables s) d = None \<longrightarrow>
      fst (bumpVersion d at s) = Returned 0 \<and> tables (snd (bumpVersion d at s)) = tables s"
    by (simp add: bumpVersion_no_row)
  have "(stored_version (snd (bumpVersion d at s)) k = None) = (stored_version s k = None)" for k
    by (simp add: bumpVersion_versions)
  then have "dom (stored_version (snd (bumpVersion d at s))) = dom (stored_version s)"
    by (auto simp: dom_def)
  then have same: "dom (data_versions (tables (snd (bumpVersion d at s))))
      = dom (data_versions (tables s))"
    by (simp add: stored_version_dom)
  have reach: "list_all (\<lambda>e. \<not> is_close e) es \<longrightarrow>
        dom (data_versions (tables (exec es (fresh_database blank at0))))
          = {''raffles'', ''rules'', ''sponsors''}"
    using exec_dom [of "fresh_database blank at0" es]
    by (simp add: fresh_database_state)
  from none same reach show ?thesis
    by blast
qed

theorem increment_unregistered_witness:
  "db_open (fresh_database () ''t0'')
   \<and> data_versions (tables (fresh_database () ''t0'')) ''users'' = None
   \<and> fst (bumpVersion ''users'' ''t1'' (fresh_database () ''t0'')) = Returned 0
   \<and> tables (snd (bumpVersion ''users'' ''t1'' (fresh_database () ''t0'')))
       = tables (fresh_database () ''t0'')
   \<and> dom (data_versions (tables (exec busy_day (fresh_database () ''t0''))))
       = {''raffles'', ''rules'', ''sponsors''}"
proof -
  have pre: "db_open (fresh_database () ''t0'')"
    "data_versions (tables (fresh_database () ''t0'')) ''users'' = None"
    by (simp_all add: fresh_database_def initDb_def module_loaded_def schema_sql_def
        insert_or_ignore_def)
  have evs: "list_all (\<lambda>e. \<not> is_close e) busy_day"
    by (simp add: busy_day_def)
  from increment_unregistered [of "fresh_database () ''t0''" "''users''" "''t1''" busy_day "()" "''t0''"]
    pre evs
  show ?thesis
    by simp
qed

section \<open>Handlers: the claims\<close>

text \<open>
  C7, as amended: every mutating handler of a versioned domain \<open>d\<close> that gets as far as
  its answer 200 has issued its steps in this order: the saves its statements schedule
  (at least one; one more for the transaction of the reorder handler), then the
  invalidation of the cache entry of \<open>d\<close>, then the increment of the version of \<open>d\<close>,
  which schedules a save again, and then the broadcast of \<^verbatim>\<open>update\<close> carrying the
  version read after the increment. These steps follow one another without interruption
  from the state \<open>s0\<close> in which the handler's last stretch begins: the state the handler
  starts in, except for \<^verbatim>\<open>PUT /api/raffles/:id\<close> with an image URL, which has run its
  first statement and scheduled its first save before it awaited the download. Every
  recorded save is a timeout the database module armed, and the last one is armed for
  1000 ms after the clock. Afterwards there is no cache entry for \<open>d\<close>, the stored
  counter has been incremented once, and the hub has broadcast; while the counter is in
  the exact range, the version broadcast is the old one plus one.
\<close>

theorem mutation_order:
  assumes "fst (handle Proceeds m at s) = 200"
  shows "(let s' = snd (handle Proceeds m at s);
              s0 = resumed m s;
              d = domain_of m;
              w = current_version s' d
          in scheduled (earlier_saves m) s (suspended m s)
           \<and> (earlier_saves m = 0 \<longrightarrow> suspended m s = s \<and> s0 = s)
           \<and> trace s' = trace s0 @ replicate (statement_saves m) ScheduleSave
                 @ [InvalidateCache d, IncrementVersion d, ScheduleSave,
                    Broadcast ''update'' (update_data d w)]
           \<and> 0 < statement_saves m
           \<and> next_handle (database s') = next_handle (database s0) + statement_saves m + 1
           \<and> save_armed (database s') (clock (database s0) + 1000)
           \<and> cache (data_cache s') d = None
           \<and> stored_version (database s') d
               = map_option sqlite_plus_one (stored_version (database s0) d)
           \<and> sse s' = broadcast ''update'' (update_data d w) (sse s0)
           \<and> (\<forall>v. stored_version (database s0) d = Some v \<and> - (2 ^ 53) \<le> v \<and> v + 1 \<le> 2 ^ 53
                 \<longrightarrow> stored_version (database s') d = Some (v + 1) \<and> w = v + 1))"
proof -
  define s' where "s' = snd (handle Proceeds m at s)"
  define s0 where "s0 = resumed m s"
  define d where "d = domain_of m"
  from handle_200 [OF assms]
  obtain s1 where early: "scheduled (earlier_saves m) s (suspended m s)"
    and sch: "scheduled (statement_saves m) s0 s1" and tl: "tail_issued d s1 s'"
    by (auto simp: s'_def s0_def d_def)
  note io = issued_in_order [OF sch tl]
  have same: "earlier_saves m = 0 \<longrightarrow> suspended m s = s \<and> s0 = s"
    unfolding s0_def by (cases m rule: earlier_saves.cases) simp_all
  have exact: "stored_version (database s') d = Some (v + 1) \<and> current_version s' d = v + 1"
    if v: "stored_version (database s0) d = Some v" and lo: "- (2 ^ 53) \<le> v"
      and hi: "v + 1 \<le> 2 ^ 53" for v
  proof -
    have sp: "sqlite_plus_one v = v + 1"
      by (rule sqlite_plus_one_exact [OF lo hi])
    have td: "to_double (v + 1) = v + 1"
      using lo hi by (simp add: to_double_small abs_le_iff)
    from io(3) have "stored_version (database s') d = Some (v + 1)"
      by (simp add: v sp)
    then show ?thesis
      by (simp add: current_version_def td)
  qed
  from early same io statement_saves_positive [of m] exact show ?thesis
    unfolding Let_def s'_def [symmetric] s0_def [symmetric] d_def [symmetric] by blast
qed

theorem mutation_order_witness:
  "fst (handle Proceeds (PostRaffles (insert_row 7)) ''t1'' srv0) = 200
   \<and> stored_version (database srv0) ''raffles'' = Some 0
   \<and> trace (snd (handle Proceeds (PostRaffles (insert_row 7)) ''t1'' srv0))
       = [ScheduleSave, InvalidateCache ''raffles'', IncrementVersion ''raffles'', ScheduleSave,
          Broadcast ''update'' [(''type'', JString ''raffles''), (''version'', JNumber 1)]]
   \<and> stored_version (database (snd (handle Proceeds (PostRaffles (insert_row 7)) ''t1'' srv0)))
         ''raffles'' = Some 1
   \<and> next_handle (database (snd (handle Proceeds (PostRaffles (insert_row 7)) ''t1'' srv0))) = 3
   \<and> save_armed (database (snd (handle Proceeds (PostRaffles (insert_row 7)) ''t1'' srv0))) 1000
   \<and> cache (data_cache (snd (handle Proceeds (PostRaffles (insert_row 7)) ''t1'' srv0)))
         ''raffles'' = None"
proof -
  let ?s' = "snd (handle Proceeds (PostRaffles (insert_row 7)) ''t1'' srv0)"
  note m = mutation_order [OF first_raffle_accepted,
      unfolded Let_def domain_of.simps resumed.simps]
  from m have "\<forall>v. stored_version (database srv0) ''raffles'' = Some v
        \<and> - (2 ^ 53) \<le> v \<and> v + 1 \<le> 2 ^ 53
      \<longrightarrow> stored_version (database ?s') ''raffles'' = Some (v + 1)
          \<and> current_version ?s' ''raffles'' = v + 1"
    by blast
  from this [rule_format, of 0] srv0_state(2)
  have cv: "stored_version (database ?s') ''raffles'' = Some 1"
    "current_version ?s' ''raffles'' = 1"
    by simp_all
  from m cv first_raffle_accepted srv0_state show ?thesis
    by (simp add: update_data_def)
qed

text \<open>
  C7 as stated fails: in the trace of \<^verbatim>\<open>POST /api/raffles\<close> on a started server the
  invalidation comes before the increment, not after it.
\<close>

theorem mutation_order_counterexample:
  "\<not> claimed_order ''raffles'' (trace (snd (post_raffles Proceeds (insert_row 7) ''t1'' srv0)))
   \<and> \<not> precedes (IncrementVersion ''raffles'') (InvalidateCache ''raffles'')
         (trace (snd (post_raffles Proceeds (insert_row 7) ''t1'' srv0)))
   \<and> precedes (InvalidateCache ''raffles'') (IncrementVersion ''raffles'')
         (trace (snd (post_raffles Proceeds (insert_row 7) ''t1'' srv0)))"
proof -
  have "trace (snd (post_raffles Proceeds (insert_row 7) ''t1'' srv0))
       = [ScheduleSave, InvalidateCache ''raffles'', IncrementVersion ''raffles'', ScheduleSave,
          Broadcast ''update'' (update_data ''raffles'' 1)]"
    using srv1_state(4) by (simp add: srv1_def)
  then show ?thesis
    by (simp add: claimed_order_def)
qed

text \<open>
  C8, as amended: on the open database, a read of a domain (any of the three read
  routes) that the rate limiters let through is answered in one of three ways, with \<open>v\<close>
  the current version. When
  \<^verbatim>\<open>If-None-Match\<close> is not empty and \<^verbatim>\<open>parseInt\<close> reads it as \<open>v\<close>, the answer is
  304 with no header and no body, and nothing is materialized or changed. Otherwise the
  payload is materialized (the cached one, or the one read from the tables, which is then
  cached) and \<^verbatim>\<open>res.json\<close> decides: when the request is fresh for the tag \<open>v\<close>, the
  answer is 304 with the tag and no body; when it is not, the answer is 200 with the tag,
  and with the payload if the method is \<^verbatim>\<open>GET\<close>. A request without
  \<^verbatim>\<open>If-Modified-Since\<close> and \<^verbatim>\<open>Cache-Control\<close> is fresh exactly when its
  \<^verbatim>\<open>If-None-Match\<close> is \<^verbatim>\<open>*\<close> or has the tag, weak or strong, among its members;
  one without \<^verbatim>\<open>If-None-Match\<close> and \<^verbatim>\<open>If-Modified-Since\<close> never is. While
  versions are in the exact range, the token issued for the current version is answered
  304, and a token issued for any other version is answered 200, whatever the other
  headers. A request over the limit is answered 429.
\<close>

theorem conditional_read:
  assumes "db_open (database s)"
  shows "(let key = read_domain r;
              ma = max_age r;
              v = current_version s key;
              tag = Number_toString v;
              answer = serve ex r q False req t1 t2 t3 s
          in (token_matches (if_none_match req) v \<longrightarrow> answer = (Returned not_modified, s))
           \<and> (\<not> token_matches (if_none_match req) v \<and> fresh ex req tag \<longrightarrow>
                 answer = (Returned \<lparr>status = 304, etag = Some tag, cache_control = Some ma,
                                      body = None\<rparr>,
                           materialized key q t1 t2 t3 s))
           \<and> (\<not> token_matches (if_none_match req) v \<and> \<not> fresh ex req tag \<longrightarrow>
                 answer = (Returned \<lparr>status = 200, etag = Some tag, cache_control = Some ma,
                                      body = (case http_method req of
                                                GET \<Rightarrow> Some (cached_or_fresh key q t1 s)
                                              | HEAD \<Rightarrow> None)\<rparr>,
                           materialized key q t1 t2 t3 s))
           \<and> (\<not> truthy (if_modified_since req) \<and> \<not> truthy (cache_control_header req) \<longrightarrow>
                 fresh ex req tag
                   = (truthy (if_none_match req)
                      \<and> (if_none_match req = Some ''*''
                         \<or> etag_matches tag (header_text (if_none_match req)))))
           \<and> (\<not> truthy (if_none_match req) \<and> \<not> truthy (if_modified_since req) \<longrightarrow>
                 \<not> token_matches (if_none_match req) v \<and> \<not> fresh ex req tag)
           \<and> (\<bar>v\<bar> \<le> 2 ^ 53 \<and> if_none_match req = Some tag \<longrightarrow>
                 answer = (Returned not_modified, s))
           \<and> (\<forall>v'. \<bar>v\<bar> \<le> 2 ^ 53 \<and> \<bar>v'\<bar> \<le> 2 ^ 53 \<and> v' \<noteq> v
                    \<and> if_none_match req = Some (Number_toString v') \<longrightarrow>
                    \<not> token_matches (if_none_match req) v \<and> \<not> fresh ex req tag)
           \<and> serve ex r q True req t1 t2 t3 s = (Returned too_many_requests, s))"
proof -
  define key where "key = read_domain r"
  define ma where "ma = max_age r"
  define v where "v = current_version s key"
  define tag where "tag = Number_toString v"
  define answer where "answer = serve ex r q False req t1 t2 t3 s"
  have route: "serve ex r q = conditional_get ex key ma q"
    unfolding key_def ma_def
    by (cases r) (simp_all add: get_raffles_def get_rules_def get_sponsors_def)
  have cases: "answer =
     (if token_matches (if_none_match req) v then (Returned not_modified, s)
      else (Returned (res_json ex req tag ma (cached_or_fresh key q t1 s)),
            materialized key q t1 t2 t3 s))"
    unfolding answer_def v_def tag_def route by (rule conditional_get_cases [OF assms])
  have c1: "token_matches (if_none_match req) v \<longrightarrow> answer = (Returned not_modified, s)"
    by (simp add: cases)
  have c2: "\<not> token_matches (if_none_match req) v \<and> fresh ex req tag \<longrightarrow>
      answer = (Returned \<lparr>status = 304, etag = Some tag, cache_control = Some ma, body = None\<rparr>,
                materialized key q t1 t2 t3 s)"
    by (simp add: cases res_json_def)
  have c3: "\<not> token_matches (if_none_match req) v \<and> \<not> fresh ex req tag \<longrightarrow>
      answer = (Returned \<lparr>status = 200, etag = Some tag, cache_control = Some ma,
                           body = (case http_method req of
                                     GET \<Rightarrow> Some (cached_or_fresh key q t1 s)
                                   | HEAD \<Rightarrow> None)\<rparr>,
                materialized key q t1 t2 t3 s)"
    by (simp add: cases res_json_def)
  have tag_ne: "tag \<noteq> []"
    unfolding tag_def by (rule Number_toString_not_empty)
  have c4: "\<not> truthy (if_modified_since req) \<and> \<not> truthy (cache_control_header req) \<longrightarrow>
      fresh ex req tag
        = (truthy (if_none_match req)
           \<and> (if_none_match req = Some ''*''
              \<or> etag_matches tag (header_text (if_none_match req))))"
    using fresh_plain [of req tag ex] tag_ne by blast
  have c5: "\<not> truthy (if_none_match req) \<and> \<not> truthy (if_modified_since req) \<longrightarrow>
      \<not> token_matches (if_none_match req) v \<and> \<not> fresh ex req tag"
    by (auto simp: fresh_def token_matches_def truthy_def split: option.splits)
  have c6: "\<bar>v\<bar> \<le> 2 ^ 53 \<and> if_none_match req = Some tag \<longrightarrow>
      answer = (Returned not_modified, s)"
  proof
    assume a: "\<bar>v\<bar> \<le> 2 ^ 53 \<and> if_none_match req = Some tag"
    then have "token_matches (if_none_match req) v"
      using issued_token_matches [of v v] by (simp add: tag_def)
    with c1 show "answer = (Returned not_modified, s)"
      by simp
  qed
  have c7: "\<forall>v'. \<bar>v\<bar> \<le> 2 ^ 53 \<and> \<bar>v'\<bar> \<le> 2 ^ 53 \<and> v' \<noteq> v
        \<and> if_none_match req = Some (Number_toString v') \<longrightarrow>
        \<not> token_matches (if_none_match req) v \<and> \<not> fresh ex req tag"
  proof (intro allI impI)
    fix v'
    assume a: "\<bar>v\<bar> \<le> 2 ^ 53 \<and> \<bar>v'\<bar> \<le> 2 ^ 53 \<and> v' \<noteq> v
        \<and> if_none_match req = Some (Number_toString v')"
    then have "\<not> token_matches (if_none_match req) v"
      using issued_token_matches [of v v'] by simp
    moreover from a have "\<not> fresh ex req tag"
      unfolding tag_def by (intro stale_token_not_fresh [of v v']) simp_all
    ultimately show "\<not> token_matches (if_none_match req) v \<and> \<not> fresh ex req tag"
      by simp
  qed
  have c8: "serve ex r q True req t1 t2 t3 s = (Returned too_many_requests, s)"
    by (simp add: route conditional_get_def)
  from c1 c2 c3 c4 c5 c6 c7 c8 show ?thesis
    unfolding Let_def key_def [symmetric] ma_def [symmetric] v_def [symmetric]
      tag_def [symmetric] answer_def [symmetric]
    by blast
qed

theorem conditional_read_witness:
  "db_open (database srv1)
   \<and> current_version srv1 ''raffles'' = 1
   \<and> token_matches (if_none_match (with_token ''1'')) 1
   \<and> get_raffles Express4 id False (with_token ''1'') 5 5 5 srv1 = (Returned not_modified, srv1)
   \<and> \<not> token_matches (if_none_match (with_token ''0'')) 1
   \<and> \<not> fresh Express4 (with_token ''0'') ''1''
   \<and> fst (get_raffles Express4 id False (with_token ''0'') 5 5 5 srv1)
       = Returned \<lparr>status = 200, etag = Some ''1'',
                   cache_control = Some ''private, max-age=5'', body = Some [7]\<rparr>
   \<and> fst (get_raffles Express5 id False (plain_get\<lparr>http_method := HEAD\<rparr>) 5 5 5 srv1)
       = Returned \<lparr>status = 200, etag = Some ''1'',
                   cache_control = Some ''private, max-age=5'', body = None\<rparr>
   \<and> get_raffles Express5 id True (plain_get\<lparr>http_method := HEAD\<rparr>) 5 5 5 srv1
       = (Returned too_many_requests, srv1)"
proof -
  have one: "Number_toString 1 = ''1''" and zero: "Number_toString 0 = ''0''"
    by (simp_all add: Number_toString_small) code_simp+
  have t1: "token_matches (if_none_match (with_token ''1'')) 1"
    using issued_token_matches [of 1 1] by (simp add: one with_token_def)
  have t0: "\<not> token_matches (if_none_match (with_token ''0'')) 1"
    using issued_token_matches [of 1 0] by (simp add: zero with_token_def)
  have f0: "\<not> fresh Express4 (with_token ''0'') ''1''"
    using stale_token_not_fresh [of 1 0 "with_token ''0''" Express4]
    by (simp add: one zero with_token_def)
  have th: "\<not> token_matches (if_none_match (plain_get\<lparr>http_method := HEAD\<rparr>)) 1"
    and fh: "\<not> fresh Express5 (plain_get\<lparr>http_method := HEAD\<rparr>) ''1''"
    by (simp_all add: token_matches_def fresh_def truthy_def plain_get_def)
  have payload: "cached_or_fresh ''raffles'' id 5 srv1 = [7]"
    by (simp add: cached_or_fresh_def cache_get_def srv1_state)
  have route: "serve ex GetRaffles q
      = conditional_get ex ''raffles'' ''private, max-age=5'' q" for ex and q :: "nat list \<Rightarrow> nat list"
    by (simp add: get_raffles_def)
  note r1 = conditional_read [OF srv1_state(1), of GetRaffles Express4 id "with_token ''1''"
      5 5 5, unfolded Let_def read_domain.simps max_age.simps srv1_state(2) one route]
  note r0 = conditional_read [OF srv1_state(1), of GetRaffles Express4 id "with_token ''0''"
      5 5 5, unfolded Let_def read_domain.simps max_age.simps srv1_state(2) one route]
  note rh = conditional_read [OF srv1_state(1), of GetRaffles Express5 id
      "plain_get\<lparr>http_method := HEAD\<rparr>" 5 5 5,
      unfolded Let_def read_domain.simps max_age.simps srv1_state(2) one route]
  from r1 t1
  have a1: "conditional_get Express4 ''raffles'' ''private, max-age=5'' id False
      (with_token ''1'') 5 5 5 srv1 = (Returned not_modified, srv1)"
    by blast
  from r0 t0 f0
  have "conditional_get Express4 ''raffles'' ''private, max-age=5'' id False
      (with_token ''0'') 5 5 5 srv1
    = (Returned \<lparr>status = 200, etag = Some ''1'', cache_control = Some ''private, max-age=5'',
                   body = (case http_method (with_token ''0'') of
                             GET \<Rightarrow> Some (cached_or_fresh ''raffles'' id 5 srv1)
                           | HEAD \<Rightarrow> None)\<rparr>,
       materialized ''raffles'' id 5 5 5 srv1)"
    by blast
  then have a0: "fst (conditional_get Express4 ''raffles'' ''private, max-age=5'' id False
      (with_token ''0'') 5 5 5 srv1)
    = Returned \<lparr>status = 200, etag = Some ''1'', cache_control = Some ''private, max-age=5'',
                  body = Some [7]\<rparr>"
    by (simp add: payload with_token_def plain_get_def)
  from rh th fh
  have "conditional_get Express5 ''raffles'' ''private, max-age=5'' id False
      (plain_get\<lparr>http_method := HEAD\<rparr>) 5 5 5 srv1
    = (Returned \<lparr>status = 200, etag = Some ''1'', cache_control = Some ''private, max-age=5'',
                   body = (case http_method (plain_get\<lparr>http_method := HEAD\<rparr>) of
                             GET \<Rightarrow> Some (cached_or_fresh ''raffles'' id 5 srv1)
                           | HEAD \<Rightarrow> None)\<rparr>,
       materialized ''raffles'' id 5 5 5 srv1)"
    by blast
  then have ah: "fst (conditional_get Express5 ''raffles'' ''private, max-age=5'' id False
      (plain_get\<lparr>http_method := HEAD\<rparr>) 5 5 5 srv1)
    = Returned \<lparr>status = 200, etag = Some ''1'', cache_control = Some ''private, max-age=5'',
                  body = None\<rparr>"
    by simp
  from rh
  have al: "conditional_get Express5 ''raffles'' ''private, max-age=5'' id True
      (plain_get\<lparr>http_method := HEAD\<rparr>) 5 5 5 srv1 = (Returned too_many_requests, srv1)"
    by blast
  from a1 a0 ah al srv1_state(1,2) t1 t0 f0
  show ?thesis
    by (simp add: get_raffles_def)
qed

text \<open>
  C8 as stated fails, in both directions. With the version at 1, the token \<^verbatim>\<open>1x\<close> is
  not the version's token, and the claim gives the request the full payload; the handler
  reads it with \<^verbatim>\<open>parseInt\<close> and answers 304. The tokens \<^verbatim>\<open>*\<close> and \<^verbatim>\<open>0, 1\<close> are
  not equal to the version either; the handler's test fails on them, it materializes the
  payload, and \<^verbatim>\<open>res.json\<close> answers 304 without it.
\<close>

theorem conditional_read_counterexample:
  "''1x'' \<noteq> Number_toString (current_version srv1 ''raffles'')
   \<and> get_raffles Express4 id False (with_token ''1x'') 5 5 5 srv1 = (Returned not_modified, srv1)
   \<and> get_raffles Express5 id False (with_token ''1x'') 5 5 5 srv1 = (Returned not_modified, srv1)
   \<and> ''*'' \<noteq> Number_toString (current_version srv1 ''raffles'')
   \<and> fst (get_raffles Express4 id False (with_token ''*'') 5 5 5 srv1)
       = Returned \<lparr>status = 304, etag = Some ''1'',
                   cache_control = Some ''private, max-age=5'', body = None\<rparr>
   \<and> fst (get_raffles Express5 id False (with_token ''0, 1'') 5 5 5 srv1)
       = Returned \<lparr>status = 304, etag = Some ''1'',
                   cache_control = Some ''private, max-age=5'', body = None\<rparr>
   \<and> cache (data_cache (snd (get_raffles Express5 id False (with_token ''0, 1'') 5 5 5 srv1)))
         ''raffles'' \<noteq> None"
proof -
  have one: "Number_toString 1 = ''1''"
    by (simp add: Number_toString_small) code_simp
  have n1: "to_number False (Suc 0) = Whole 1"
    using to_number_small [of 1 False] by simp
  have n0: "to_number False 0 = Whole 0"
    using to_number_small [of 0 False] by simp
  have p1: "parseInt ''1x'' = Whole 1"
    by (simp add: parseInt_def is_space_def digit_of_def digits_value_def Let_def n1)
  have ps: "parseInt ''*'' = NaN"
    by (simp add: parseInt_def is_space_def digit_of_def Let_def)
  have pl: "parseInt ''0, 1'' = Whole 0"
    by (simp add: parseInt_def is_space_def digit_of_def digits_value_def Let_def n0)
  have m1: "token_matches (if_none_match (with_token ''1x'')) (current_version srv1 ''raffles'')"
    by (simp add: token_matches_def with_token_def p1 srv1_state)
  have ms: "\<not> token_matches (if_none_match (with_token ''*'')) (current_version srv1 ''raffles'')"
    by (simp add: token_matches_def with_token_def ps srv1_state)
  have ml: "\<not> token_matches (if_none_match (with_token ''0, 1'')) (current_version srv1 ''raffles'')"
    by (simp add: token_matches_def with_token_def pl srv1_state)
  have fs: "fresh Express4 (with_token ''*'') ''1''"
    by (simp add: fresh_def truthy_def with_token_def plain_get_def)
  have fl: "fresh Express5 (with_token ''0, 1'') ''1''"
    by (simp add: fresh_def truthy_def header_text_def with_token_def plain_get_def
        etag_matches_def parseTokenList_def trim_def)
  note g = conditional_get_cases [OF srv1_state(1), of _ "''raffles''" "''private, max-age=5''" id]
  have mat: "cache (data_cache (materialized ''raffles'' id 5 5 5 srv1)) ''raffles'' \<noteq> None"
    by (simp add: materialized_def cache_get_def cache_set_def srv1_state)
  show ?thesis
    using m1 ms ml fs fl mat
    by (simp add: get_raffles_def g res_json_def srv1_state one)
qed


end
